theory Spec2Isabelle
  imports Complex_Main
begin

section \<open>FullSnap: capture planning, viewport stitching and PDF pagination\<close>

text \<open>
  A shallow embedding of the algorithmic core of the FullSnap extension:
  \<^item> \<open>calculateScrollPositions\<close>, \<open>computeCaptureStrategy\<close> and \<open>buildCaptureSegments\<close>
    of \<open>background/service-worker.js\<close>;
  \<^item> \<open>determineCanvasStrategy\<close>, \<open>prepareCanvas\<close> and \<open>stitchViewport\<close> of the offscreen
    document;
  \<^item> \<open>findAllWhitespaceBands\<close> and \<open>appendCanvasToPagedPdf\<close> of the viewer.

  JavaScript numbers are modelled exactly: page metrics and pixel rows, which the
  browser reports as whole numbers, are \<open>int\<close>; device pixel ratios, millimetres and
  row scores are \<open>rat\<close>. Rational arithmetic has no rounding error, so the model
  describes the source's arithmetic as written, not the last bit of an IEEE double.
\<close>

subsection \<open>JavaScript primitives\<close>

text \<open>\<open>Math.round\<close> rounds half up, \<open>Math.floor\<close> and \<open>Math.ceil\<close> are floor and ceiling.\<close>

definition Math_round :: "rat \<Rightarrow> int" where
  "Math_round x = \<lfloor>x + 1 / 2\<rfloor>"


definition Math_ceil :: "rat \<Rightarrow> int" where
  "Math_ceil x = \<lceil>x\<rceil>"

text \<open>\<open>x || d\<close> on a number: \<open>d\<close> when \<open>x\<close> is 0, else \<open>x\<close>.\<close>

definition or_else :: "'a::zero \<Rightarrow> 'a \<Rightarrow> 'a" where
  "or_else x d = (if x = 0 then d else x)"


subsection \<open>Constants (\<open>shared/constants.js\<close>)\<close>

definition MAX_CANVAS_DIMENSION :: int where
  "MAX_CANVAS_DIMENSION = 16384"

definition MAX_CANVAS_AREA :: int where
  "MAX_CANVAS_AREA = 100000000"

subsection \<open>Scroll planning\<close>

text \<open>
  The \<open>while\<close> loop of \<open>calculateScrollPositions\<close>, with its two variables \<open>positions\<close>
  and \<open>y\<close>. For \<open>viewportHeight \<le> 0\<close> the loop of the source never ends; the model is a
  partial function and not returning is the value \<open>None\<close>.
\<close>

partial_function (option) scroll_loop ::
  "int \<Rightarrow> int \<Rightarrow> int list \<Rightarrow> int \<Rightarrow> (int list \<times> int) option" where
  "scroll_loop tH vH ps y =
     (if y + vH \<le> tH
      then scroll_loop tH vH (ps @ [y]) (y + vH)
      else Some (ps, y))"

declare scroll_loop.simps [code]

text \<open>
  \<open>[...new Set(positions)]\<close>: a JavaScript \<open>Set\<close> keeps the first occurrence of each
  value, in insertion order.
\<close>

fun set_insert :: "'a list \<Rightarrow> 'a \<Rightarrow> 'a list" where
  "set_insert seen x = (if x \<in> set seen then seen else seen @ [x])"

definition new_Set :: "'a list \<Rightarrow> 'a list" where
  "new_Set xs = foldl set_insert [] xs"

text \<open>\<open>.sort((a, b) => a - b)\<close> is the ascending numeric sort.\<close>

definition calculateScrollPositions :: "int \<Rightarrow> int \<Rightarrow> int list option" where
  "calculateScrollPositions tH vH =
     (if tH \<le> vH then Some [0]
      else case scroll_loop tH vH [] 0 of
             None \<Rightarrow> None
           | Some (ps, y) \<Rightarrow>
               Some (sort (new_Set (if y < tH then ps @ [tH - vH] else ps))))"

subsection \<open>Capture strategy\<close>





subsection \<open>Segment planning\<close>

record segment =
  index :: nat
  startPositionIndex :: nat
  positions :: "int list"
  startY :: int
  endY :: int
  height :: int

text \<open>
  The \<open>for\<close> loop of \<open>buildCaptureSegments\<close>; \<open>positions.slice(i, i + viewportsPerSegment)\<close>
  is \<open>take viewportsPerSegment (drop i positions)\<close>. The slice is empty only for
  \<open>viewportsPerSegment = 0\<close>, where \<open>i\<close> never advances and the loop of the source does not
  end: the model does not return there.
\<close>

partial_function (option) segments_loop ::
  "int list \<Rightarrow> int \<Rightarrow> int \<Rightarrow> nat \<Rightarrow> nat \<Rightarrow> segment list \<Rightarrow> segment list option" where
  "segments_loop ps vH tH vps i segments =
     (if i < length ps then
        (case take vps (drop i ps) of
           [] \<Rightarrow> None
         | p # rest \<Rightarrow>
             (let slice = p # rest;
                  sY = p;
                  eY = min tH (last slice + vH)
              in segments_loop ps vH tH vps (i + vps)
                   (segments @ [\<lparr> index = length segments, startPositionIndex = i,
                                   positions = slice, startY = sY, endY = eY,
                                   height = eY - sY \<rparr>])))
      else Some segments)"

declare segments_loop.simps [code]

definition buildCaptureSegments :: "int list \<Rightarrow> int \<Rightarrow> int \<Rightarrow> nat \<Rightarrow> segment list option" where
  "buildCaptureSegments ps vH tH vps = segments_loop ps vH tH vps 0 []"

text \<open>
  What the loop body stores in a segment: a non-empty slice, \<open>startY = slice[0]\<close>,
  \<open>endY = min(totalHeight, slice[slice.length - 1] + viewportHeight)\<close> and
  \<open>height = endY - startY\<close>.
\<close>

definition segment_ok :: "int \<Rightarrow> int \<Rightarrow> segment \<Rightarrow> bool" where
  "segment_ok vH tH s \<longleftrightarrow>
     positions s \<noteq> [] \<and> startY s = hd (positions s)
     \<and> endY s = min tH (last (positions s) + vH) \<and> height s = endY s - startY s"

subsection \<open>Viewport stitching (offscreen document)\<close>

text \<open>
  A decoded viewport capture. \<open>imgId\<close> identifies the capture, so that a \<open>drawImage\<close>
  call can be traced back to it.
\<close>

record image =
  imgId :: nat
  naturalWidth :: int
  naturalHeight :: int

text \<open>
  The \<open>STITCH_VIEWPORT\<close> message. \<open>img\<close> is the outcome of \<open>loadImageWithTimeout(dataUrl)\<close>:
  \<open>None\<close> when the promise is rejected (load error or timeout).
\<close>

record stitch_message =
  img :: "image option"
  yOffset :: int
  msg_viewportHeight :: int
  isFirst :: bool

text \<open>
  One call \<open>ctx.drawImage(img, 0, srcCropY, srcW, srcDrawH, 0, destCropY, drawWidth, destDrawH)\<close>.
\<close>

record draw_call =
  draw_img :: nat
  srcCropY :: int
  srcW :: int
  srcDrawH :: int
  destCropY :: int
  drawWidth :: int
  destDrawH :: int

record canvas_strategy =
  scale :: rat
  canvasWidth :: int
  canvasHeight :: int

text \<open>
  The state of the offscreen document: \<open>canvasStrategy\<close>, \<open>canvas._lastDrawnBottomY\<close> and
  the \<open>drawImage\<close> calls made on the canvas so far, in order.
\<close>

record offscreen =
  canvasStrategy :: canvas_strategy
  lastDrawnBottomY :: int
  draws :: "draw_call list"

datatype offscreen_error =
  WidthExceedsLimit | HeightExceedsLimit | AreaExceedsLimit
  | CanvasNotPrepared | ImageLoadFailed

definition determineCanvasStrategy :: "int \<Rightarrow> int \<Rightarrow> rat \<Rightarrow> offscreen_error + canvas_strategy" where
  "determineCanvasStrategy w h dpr =
     (let safeWidth = max 1 w;
          safeHeight = max 1 h;
          safeDpr = max (1 / 2) dpr;
          physicalWidth = Math_round (of_int safeWidth * safeDpr);
          physicalHeight = Math_round (of_int safeHeight * safeDpr);
          area = physicalWidth * physicalHeight
      in if physicalWidth > MAX_CANVAS_DIMENSION then Inl WidthExceedsLimit
         else if physicalHeight > MAX_CANVAS_DIMENSION then Inl HeightExceedsLimit
         else if area > MAX_CANVAS_AREA then Inl AreaExceedsLimit
         else Inr \<lparr> scale = safeDpr, canvasWidth = physicalWidth,
                    canvasHeight = physicalHeight \<rparr>)"

definition prepareCanvas :: "int \<Rightarrow> int \<Rightarrow> rat \<Rightarrow> offscreen_error + offscreen" where
  "prepareCanvas vW tH dpr =
     (case determineCanvasStrategy vW tH dpr of
        Inl e \<Rightarrow> Inl e
      | Inr st \<Rightarrow> Inr \<lparr> canvasStrategy = st, lastDrawnBottomY = 0, draws = [] \<rparr>)"

text \<open>
  \<open>drawY\<close> and \<open>drawHeight\<close> of \<open>stitchViewport\<close>: where a capture's window starts on the
  canvas and how many canvas rows it spans.
\<close>

definition msg_drawY :: "rat \<Rightarrow> stitch_message \<Rightarrow> int" where
  "msg_drawY canvasScale msg = Math_round (of_int (yOffset msg) * canvasScale)"

definition msg_drawHeight :: "rat \<Rightarrow> stitch_message \<Rightarrow> int" where
  "msg_drawHeight canvasScale msg = Math_round (of_int (msg_viewportHeight msg) * canvasScale)"

text \<open>\<open>Math.round((overlapPx / drawHeight) * srcH)\<close>, the overlap in source-image rows.\<close>

definition overlap_src_px :: "int \<Rightarrow> int \<Rightarrow> int \<Rightarrow> int" where
  "overlap_src_px overlapPx drawHeight srcH =
     Math_round ((of_int overlapPx / of_int drawHeight) * of_int srcH)"

text \<open>
  \<open>stitchViewport\<close>. \<open>overlap\<close> is the conjunction of the two nested \<open>if\<close> conditions under
  which the source sets \<open>srcCropY\<close> and \<open>destCropY\<close>. The state is \<open>None\<close> before
  \<open>prepareCanvas\<close>. When \<open>drawHeight\<close> is 0 and there is an overlap, \<open>destDrawH\<close> is negative
  and nothing is drawn, whatever the quotient \<open>overlapPx / drawHeight\<close> is taken to be.
  \<open>drawImage\<close> is called on a decoded image with positive source and destination heights;
  it does not throw there, so the \<open>catch\<close> around it has no branch in the model.
\<close>

definition stitchViewport :: "offscreen option \<Rightarrow> stitch_message \<Rightarrow> offscreen_error + offscreen" where
  "stitchViewport state msg =
     (case state of
        None \<Rightarrow> Inl CanvasNotPrepared
      | Some c \<Rightarrow>
         (case img msg of
            None \<Rightarrow> Inl ImageLoadFailed
          | Some im \<Rightarrow>
             (let canvasScale = scale (canvasStrategy c);
                  drawY = msg_drawY canvasScale msg;
                  sW = naturalWidth im;
                  srcH = naturalHeight im;
                  dW = canvasWidth (canvasStrategy c);
                  drawHeight = msg_drawHeight canvasScale msg;
                  alreadyDrawnUpTo = or_else (lastDrawnBottomY c) 0;
                  overlap = \<not> isFirst msg \<and> yOffset msg > 0 \<and> alreadyDrawnUpTo > drawY;
                  overlapPx = alreadyDrawnUpTo - drawY;
                  sCropY = (if overlap
                            then overlap_src_px overlapPx drawHeight srcH
                            else 0);
                  dCropY = (if overlap then alreadyDrawnUpTo else drawY);
                  sDrawH = srcH - sCropY;
                  dDrawH = drawHeight - (dCropY - drawY)
              in Inr (c \<lparr> draws :=
                            (if sDrawH > 0 \<and> dDrawH > 0
                             then draws c @ [\<lparr> draw_img = imgId im, srcCropY = sCropY, srcW = sW,
                                                srcDrawH = sDrawH, destCropY = dCropY,
                                                drawWidth = dW, destDrawH = dDrawH \<rparr>]
                             else draws c),
                          lastDrawnBottomY := dCropY + dDrawH \<rparr>))))"

text \<open>
  The captures of one segment, stitched one after the other (\<open>STITCH_CONCURRENCY\<close> is 1);
  the first failure aborts the capture.
\<close>

fun stitchAll :: "offscreen \<Rightarrow> stitch_message list \<Rightarrow> offscreen_error + offscreen" where
  "stitchAll c [] = Inr c"
| "stitchAll c (msg # msgs) =
     (case stitchViewport (Some c) msg of
        Inl e \<Rightarrow> Inl e
      | Inr c' \<Rightarrow> stitchAll c' msgs)"

text \<open>
  The canvas rows a \<open>drawImage\<close> call writes, the captures that wrote a given row (one entry
  per call), and the canvas rows of a capture's window.
\<close>

definition writes_row :: "draw_call \<Rightarrow> int \<Rightarrow> bool" where
  "writes_row d r \<longleftrightarrow> destCropY d \<le> r \<and> r < destCropY d + destDrawH d"

definition writers :: "int \<Rightarrow> draw_call list \<Rightarrow> nat list" where
  "writers r ds = map draw_img (filter (\<lambda>d. writes_row d r) ds)"

definition covers :: "rat \<Rightarrow> stitch_message \<Rightarrow> int \<Rightarrow> bool" where
  "covers canvasScale msg r \<longleftrightarrow>
     msg_drawY canvasScale msg \<le> r \<and> r < msg_drawY canvasScale msg + msg_drawHeight canvasScale msg"

text \<open>
  Inputs used below: 200 \<times> 100 px captures on a canvas at scale 1, and the captures of a
  1000 \<times> 604 px viewport at device pixel ratio 1.1 on the canvas of an 1812 px segment.
\<close>

definition capture :: "nat \<Rightarrow> int \<Rightarrow> bool \<Rightarrow> stitch_message" where
  "capture n y first = \<lparr> img = Some \<lparr> imgId = n, naturalWidth = 200, naturalHeight = 100 \<rparr>,
                           yOffset = y, msg_viewportHeight = 100, isFirst = first \<rparr>"

definition zoomed_capture :: "nat \<Rightarrow> int \<Rightarrow> bool \<Rightarrow> stitch_message" where
  "zoomed_capture n y first =
     \<lparr> img = Some \<lparr> imgId = n, naturalWidth = 1100, naturalHeight = 664 \<rparr>,
       yOffset = y, msg_viewportHeight = 604, isFirst = first \<rparr>"

definition zoomed_canvas :: offscreen where
  "zoomed_canvas = \<lparr> canvasStrategy = \<lparr> scale = 11 / 10, canvasWidth = 1100,
                                             canvasHeight = 1993 \<rparr>,
                      lastDrawnBottomY = 0, draws = [] \<rparr>"

definition blank_canvas :: offscreen where
  "blank_canvas = \<lparr> canvasStrategy = \<lparr> scale = 1, canvasWidth = 200, canvasHeight = 150 \<rparr>,
                     lastDrawnBottomY = 0, draws = [] \<rparr>"


subsection \<open>Whitespace bands (viewer)\<close>

text \<open>
  A band object \<open>{start, end, centre, width}\<close> of \<open>findAllWhitespaceBands\<close>; the fields carry
  the prefix \<open>band_\<close> (\<open>end\<close> is a keyword).
\<close>

record band =
  band_start :: int
  band_end :: int
  band_centre :: rat
  band_width :: int

text \<open>
  \<open>rowScores[r] < blankThreshold\<close>; a read outside the array yields \<open>undefined\<close>, and the
  comparison is false.
\<close>

definition score_blank :: "rat list \<Rightarrow> int \<Rightarrow> rat \<Rightarrow> bool" where
  "score_blank rowScores r blankThreshold \<longleftrightarrow>
     0 \<le> r \<and> nat r < length rowScores \<and> rowScores ! nat r < blankThreshold"

text \<open>The \<open>for\<close> loop of \<open>findAllWhitespaceBands\<close>, with its variables \<open>r\<close>, \<open>bandStart\<close> and \<open>bands\<close>.\<close>

function bands_loop ::
  "rat list \<Rightarrow> int \<Rightarrow> rat \<Rightarrow> int \<Rightarrow> int \<Rightarrow> int \<Rightarrow> band list \<Rightarrow> band list" where
  "bands_loop rowScores toY blankThreshold minBandPx r bandStart bands =
     (if r \<le> toY + 1 then
        (let isBlank = r \<le> toY \<and> score_blank rowScores r blankThreshold
         in if isBlank
            then bands_loop rowScores toY blankThreshold minBandPx (r + 1)
                   (if bandStart < 0 then r else bandStart) bands
            else if bandStart \<ge> 0
            then (let bandEnd = r - 1;
                      w = bandEnd - bandStart + 1
                  in bands_loop rowScores toY blankThreshold minBandPx (r + 1) (- 1)
                       (if w \<ge> minBandPx
                        then bands @ [\<lparr> band_start = bandStart, band_end = bandEnd,
                                        band_centre = (of_int bandStart + of_int bandEnd) / 2,
                                        band_width = w \<rparr>]
                        else bands))
            else bands_loop rowScores toY blankThreshold minBandPx (r + 1) bandStart bands)
      else bands)"
  by pat_completeness auto
termination
  by (relation "measure (\<lambda>(rowScores, toY, blankThreshold, minBandPx, r, bandStart, bands).
                          nat (toY + 2 - r))") auto

definition findAllWhitespaceBands :: "rat list \<Rightarrow> int \<Rightarrow> int \<Rightarrow> rat \<Rightarrow> int \<Rightarrow> band list" where
  "findAllWhitespaceBands rowScores fromY toY blankThreshold minBandPx =
     bands_loop rowScores toY blankThreshold minBandPx fromY (- 1) []"

subsection \<open>Row scores\<close>

text \<open>
  The raster handed to the paginator: its size and the state of its bitmap.
  \<^item> \<open>Pixels data\<close>: a 2d canvas whose pixels can be read; \<open>data\<close> is the flat RGBA array
    \<open>imageData.data\<close>, which has \<open>4 \<times> width \<times> height\<close> entries, so that every read below
    is in range.
  \<^item> \<open>Tainted\<close>: the bitmap's origin-clean flag is false (cross-origin content was drawn
    on it). \<open>getImageData\<close> throws \<open>SecurityError\<close>, and so does \<open>toDataURL\<close>, also on a
    canvas the bitmap has been drawn onto.
  \<^item> \<open>NoContext\<close>: \<open>canvas.getContext('2d')\<close> is \<open>null\<close> (the missing context of the source's
    comment), so reading throws \<open>TypeError\<close>; the bitmap is origin-clean and can be drawn
    onto another canvas.
\<close>

datatype bitmap = Pixels "nat list" | Tainted | NoContext

record canvas =
  canvas_width :: nat
  canvas_height :: nat
  bitmap :: bitmap

definition origin_clean :: "canvas \<Rightarrow> bool" where
  "origin_clean cv = (bitmap cv \<noteq> Tainted)"

text \<open>
  \<open>canvas.getContext('2d').getImageData(0, 0, canvas.width, canvas.height)\<close>; \<open>None\<close> when the
  call throws: \<open>TypeError\<close> without a context, \<open>SecurityError\<close> on a tainted bitmap,
  \<open>IndexSizeError\<close> for a rectangle of width or height 0.
\<close>

definition getImageData :: "canvas \<Rightarrow> nat list option" where
  "getImageData cv =
     (case bitmap cv of
        Pixels data \<Rightarrow> if canvas_width cv = 0 \<or> canvas_height cv = 0 then None else Some data
      | Tainted \<Rightarrow> None
      | NoContext \<Rightarrow> None)"

text \<open>The columns visited by \<open>for (c = 0; c < canvasWidth; c += sampleStride)\<close>.\<close>

definition sample_columns :: "nat \<Rightarrow> nat \<Rightarrow> nat list" where
  "sample_columns cW stride = filter (\<lambda>c. c mod stride = 0) [0 ..< cW]"

text \<open>\<open>(data[off] + data[off + 1] + data[off + 2]) / 3\<close> at \<open>off = (r * canvasWidth + c) * 4\<close>.\<close>

definition brightness :: "nat list \<Rightarrow> nat \<Rightarrow> nat \<Rightarrow> nat \<Rightarrow> rat" where
  "brightness data cW r c =
     (let off = (r * cW + c) * 4
      in (of_nat (data ! off) + of_nat (data ! (off + 1)) + of_nat (data ! (off + 2))) / 3)"

text \<open>
  \<open>detectBackgroundBrightness\<close>: the mean brightness over the first and the last
  \<open>edgeRows\<close> rows (two loops, so a row of a short raster can be sampled twice). A raster
  whose pixels can be read has \<open>canvasHeight \<ge> 1\<close>, hence \<open>edgeRows \<le> canvasHeight\<close>.
\<close>

definition detectBackgroundBrightness :: "nat list \<Rightarrow> nat \<Rightarrow> nat \<Rightarrow> nat \<Rightarrow> rat" where
  "detectBackgroundBrightness data cW cH stride =
     (let edgeRows = nat (max 1 (Math_round (of_nat cH * (3 / 100))));
          rows = [0 ..< edgeRows] @ [cH - edgeRows ..< cH];
          samples = concat (map (\<lambda>r. map (brightness data cW r)
                                          (sample_columns cW stride)) rows);
          n = length samples
      in if n > 0 then sum_list samples / of_nat n else 255)"

text \<open>
  \<open>buildRowScores\<close>: per row, the mean absolute deviation from the background. The source
  stores the scores in a \<open>Float32Array\<close>; the model keeps them exact.
\<close>

definition buildRowScores :: "nat list \<Rightarrow> nat \<Rightarrow> nat \<Rightarrow> nat \<Rightarrow> rat \<Rightarrow> rat list" where
  "buildRowScores data cW cH stride bgBrightness =
     map (\<lambda>r. let devs = map (\<lambda>c. \<bar>brightness data cW r c - bgBrightness\<bar>)
                             (sample_columns cW stride);
                  n = length devs
              in if n > 0 then sum_list devs / of_nat n else 0)
         [0 ..< cH]"

subsection \<open>Pagination (\<open>appendCanvasToPagedPdf\<close>)\<close>

definition sampleStride :: nat where "sampleStride = 4"
definition MIN_BAND_PX :: int where "MIN_BAND_PX = 2"
definition BLANK_ROW_THRESHOLD :: rat where "BLANK_ROW_THRESHOLD = 12"
definition OVERLAP_PX :: int where "OVERLAP_PX = 60"
definition FOOTER_LINE_HEIGHT_MM :: rat where "FOOTER_LINE_HEIGHT_MM = 35 / 10"
definition FOOTER_PADDING_MM :: rat where "FOOTER_PADDING_MM = 25 / 10"
definition margin :: rat where "margin = 10"

text \<open>
  The \<open>try\<close> block that computes \<open>allBands\<close>; the \<open>catch\<close> sets it to \<open>null\<close> when
  \<open>getImageData\<close> throws.
\<close>

definition detectBands :: "canvas \<Rightarrow> band list option" where
  "detectBands cv =
     (case getImageData cv of
        None \<Rightarrow> None
      | Some data \<Rightarrow>
          (let bgBrightness = detectBackgroundBrightness data (canvas_width cv) (canvas_height cv)
                                sampleStride;
               rowScores = buildRowScores data (canvas_width cv) (canvas_height cv)
                             sampleStride bgBrightness
           in Some (findAllWhitespaceBands rowScores 0 (int (canvas_height cv) - 1)
                      BLANK_ROW_THRESHOLD MIN_BAND_PX)))"

text \<open>
  The values computed once per raster, before the page loop: \<open>canvas.height\<close>,
  \<open>imgHeightMm\<close>, \<open>scale\<close>, \<open>imageContentH\<close>, \<open>pagesNeeded\<close> and \<open>contentHPx\<close>.
\<close>

record layout =
  lay_height :: int
  imgHeightMm :: rat
  pdf_scale :: rat
  imageContentH :: rat
  pagesNeeded :: int
  contentHPx :: rat

text \<open>
  The footer lines come from \<open>settings\<close> and \<open>captureMeta\<close>: the URL when \<open>settings.showUrl\<close>
  and \<open>captureMeta.url\<close> are truthy, the timestamp when \<open>settings.showTimestamp\<close> and
  \<open>captureMeta.createdAt\<close> are. Only their number enters the layout. \<open>None\<close> stands for
  \<open>settings\<close> or \<open>captureMeta\<close> being undefined.
\<close>

record footer_source =
  showUrl :: bool
  url :: string
  showTimestamp :: bool
  createdAt :: nat

definition footerLineCount :: "footer_source option \<Rightarrow> nat" where
  "footerLineCount env =
     (case env of
        None \<Rightarrow> 0
      | Some f \<Rightarrow> (if showUrl f \<and> url f \<noteq> [] then 1 else 0)
                  + (if showTimestamp f \<and> createdAt f \<noteq> 0 then 1 else 0))"

text \<open>
  The layout of a \<open>w \<times> h\<close> raster; \<open>windowDpr\<close> is \<open>window.devicePixelRatio\<close>. For
  \<open>w = 0\<close> the source divides by zero (\<open>scale\<close> is infinite); \<open>paginate\<close> below treats that
  case apart and uses the layout for \<open>w > 0\<close> only. For \<open>h = 0\<close> \<open>contentHPx\<close> is \<open>NaN\<close> in the
  source; it is not used, since \<open>pagesNeeded\<close> is 0 and the page loop does not run.
\<close>

definition pageDims :: "string \<Rightarrow> rat \<times> rat" where
  "pageDims pageSize = (if pageSize = ''a4'' then (210, 297) else (2159 / 10, 2794 / 10))"

definition pxToMm :: "rat \<Rightarrow> rat" where
  "pxToMm windowDpr =
     (let dpr = max 1 (Math_round (or_else windowDpr 1))
      in (254 / 10) / (96 * of_int dpr))"

definition contentW :: "string \<Rightarrow> rat" where
  "contentW pageSize = fst (pageDims pageSize) - 2 * margin"

definition contentH :: "string \<Rightarrow> rat" where
  "contentH pageSize = snd (pageDims pageSize) - 2 * margin"

definition footerReservedMm :: "footer_source option \<Rightarrow> rat" where
  "footerReservedMm env =
     (if footerLineCount env > 0
      then FOOTER_PADDING_MM + of_nat (footerLineCount env) * FOOTER_LINE_HEIGHT_MM
      else 0)"

definition pdf_layout :: "nat \<Rightarrow> nat \<Rightarrow> string \<Rightarrow> rat \<Rightarrow> footer_source option \<Rightarrow> layout" where
  "pdf_layout w h pageSize windowDpr env =
     (let imgWidthMm = of_nat w * pxToMm windowDpr;
          imgHMm = of_nat h * pxToMm windowDpr;
          sc = contentW pageSize / imgWidthMm;
          icH = contentH pageSize - footerReservedMm env;
          scaledHeight = imgHMm * sc
      in \<lparr> lay_height = int h, imgHeightMm = imgHMm, pdf_scale = sc, imageContentH = icH,
           pagesNeeded = Math_ceil (scaledHeight / icH),
           contentHPx = (icH / sc / imgHMm) * of_nat h \<rparr>)"

text \<open>Step 1: the nominal bottom edge of a page's slice.\<close>

definition nominalEndY :: "layout \<Rightarrow> int \<Rightarrow> int" where
  "nominalEndY lay page =
     (let sourceEndMm = min ((of_int page + 1) * imageContentH lay / pdf_scale lay) (imgHeightMm lay)
      in min (Math_round ((sourceEndMm / imgHeightMm lay) * of_int (lay_height lay)))
             (lay_height lay))"

text \<open>
  Step 2. \<open>bestDist\<close> starts at \<open>Infinity\<close>, modelled as \<open>None\<close>; \<open>closer\<close> is the test
  \<open>dist < bestDist\<close>. \<open>pass1\<close> and \<open>pass2\<close> are the two \<open>for ... of allBands\<close> loops, with
  \<open>continue\<close> and \<open>break\<close> as in the source: in \<open>pass1\<close> the band is recorded first and the
  50% test that leaves the loop comes after.
\<close>

definition closer :: "rat \<Rightarrow> rat option \<Rightarrow> bool" where
  "closer bandDist bestDist = (case bestDist of None \<Rightarrow> True | Some d \<Rightarrow> bandDist < d)"

fun pass1 :: "rat \<Rightarrow> int \<Rightarrow> int \<Rightarrow> band list \<Rightarrow> rat option \<Rightarrow> band option \<Rightarrow> band option" where
  "pass1 cHPx prevCutY nomEndY [] bestDist best = best"
| "pass1 cHPx prevCutY nomEndY (b # bs) bestDist best =
     (if band_end b \<le> prevCutY then pass1 cHPx prevCutY nomEndY bs bestDist best
      else if band_centre b < of_int nomEndY then pass1 cHPx prevCutY nomEndY bs bestDist best
      else
        (let bandDist = band_centre b - of_int nomEndY;
             bestDist' = (if closer bandDist bestDist then Some bandDist else bestDist);
             best' = (if closer bandDist bestDist then Some b else best)
         in if bandDist > cHPx * (1 / 2) then best'
            else pass1 cHPx prevCutY nomEndY bs bestDist' best'))"

fun pass2 :: "int \<Rightarrow> int \<Rightarrow> band list \<Rightarrow> rat option \<Rightarrow> band option \<Rightarrow> band option" where
  "pass2 prevCutY nomEndY [] bestDist best = best"
| "pass2 prevCutY nomEndY (b # bs) bestDist best =
     (if band_end b \<le> prevCutY then pass2 prevCutY nomEndY bs bestDist best
      else if band_centre b \<ge> of_int nomEndY then pass2 prevCutY nomEndY bs bestDist best
      else
        (let bandDist = of_int nomEndY - band_centre b
         in if closer bandDist bestDist then pass2 prevCutY nomEndY bs (Some bandDist) (Some b)
            else pass2 prevCutY nomEndY bs bestDist best))"

text \<open>
  The whole of step 2: \<open>(refinedEndY, useOverlap, bestBandForPage)\<close>. Bands are searched
  only when \<open>allBands\<close> is not \<open>null\<close> and the page is not the last.
\<close>

definition findCut :: "band list option \<Rightarrow> layout \<Rightarrow> int \<Rightarrow> int \<Rightarrow> int \<times> bool \<times> band option" where
  "findCut allBands lay page prevCutY =
     (let nomEndY = nominalEndY lay page
      in case allBands of
           None \<Rightarrow> (nomEndY, False, None)
         | Some bands \<Rightarrow>
             if page < pagesNeeded lay - 1 then
               (let p1 = pass1 (contentHPx lay) prevCutY nomEndY bands None None;
                    bestBandForPage = (case p1 of None \<Rightarrow> pass2 prevCutY nomEndY bands None None
                                       | Some b \<Rightarrow> Some b)
                in case bestBandForPage of
                     Some b \<Rightarrow> (band_start b, False, Some b)
                   | None \<Rightarrow> (nomEndY, True, None))
             else (nomEndY, False, None))"

text \<open>Step 3, first statement: \<open>srcY\<close> before the safety guard.\<close>

definition sliceStart :: "bool \<Rightarrow> int \<Rightarrow> int" where
  "sliceStart useOverlap prevCutY =
     (if useOverlap \<and> prevCutY > 0 then max 0 (prevCutY - OVERLAP_PX) else prevCutY)"

text \<open>
  What one iteration emits: the source rows \<open>[srcY, srcY + srcH)\<close> drawn on the page, whether
  the overlap fallback was used, the band consumed (\<open>bestBandForPage\<close> at step 6) and the
  final \<open>refinedEndY\<close>.
\<close>

record page_slice =
  srcY :: int
  srcH :: int
  usedOverlap :: bool
  consumedBand :: "band option"
  refinedEndY :: int

text \<open>
  One iteration of the page loop, steps 2 to 6: the slice and the new \<open>prevCutY\<close>.
  \<open>floor_hit\<close> is the safety guard \<open>srcH < contentHPx * 0.05\<close>.
\<close>

definition renderPage :: "band list option \<Rightarrow> layout \<Rightarrow> int \<Rightarrow> int \<Rightarrow> page_slice \<times> int" where
  "renderPage allBands lay page prevCutY =
     (case findCut allBands lay page prevCutY of
        (refinedEndY0, useOverlap0, band0) \<Rightarrow>
          (let sY0 = sliceStart useOverlap0 prevCutY;
               sH0 = refinedEndY0 - sY0;
               floor_hit = of_int sH0 < contentHPx lay * (5 / 100);
               sY = (if floor_hit then prevCutY else sY0);
               rEndY = (if floor_hit
                        then min (prevCutY + Math_round (contentHPx lay)) (lay_height lay)
                        else refinedEndY0);
               sH1 = (if floor_hit then rEndY - sY else sH0);
               useOverlap = (if floor_hit then False else useOverlap0);
               bestBandForPage = (if floor_hit then None else band0);
               sH = max 1 (min sH1 (Math_round (contentHPx lay)))
           in (\<lparr> srcY = sY, srcH = sH, usedOverlap = useOverlap,
                  consumedBand = bestBandForPage, refinedEndY = rEndY \<rparr>,
               (case bestBandForPage of Some b \<Rightarrow> band_end b + 1 | None \<Rightarrow> rEndY))))"

text \<open>
  Step 4, which is not inside any \<open>try\<close>: \<open>drawImage\<close> copies the slice's rows of the raster
  onto a fresh slice canvas, which takes over the raster's origin-clean flag;
  \<open>sliceCanvas.toDataURL\<close> encodes the slice and throws \<open>SecurityError\<close> when that flag is
  false; \<open>pdf.addImage\<close> places the JPEG. \<open>clean\<close> is the raster's origin-clean flag, and
  the result is the exception thrown, if any. Inside the page loop the raster has positive
  width and height and \<open>srcH \<ge> 1\<close>, so the source rectangle of \<open>drawImage\<close> is not empty;
  encoding and placing an origin-clean slice are taken to succeed.
\<close>

datatype export_error = InvalidStateError | SecurityError

definition addSliceToPdf :: "bool \<Rightarrow> page_slice \<Rightarrow> export_error option" where
  "addSliceToPdf clean sl = (if clean then None else Some SecurityError)"

text \<open>
  The loop \<open>for (page = 0; page < pagesNeeded; page++)\<close>: the slices added to the PDF, or
  the exception that step 4 throws, which leaves the loop and the function.
\<close>

function pages_loop ::
  "bool \<Rightarrow> band list option \<Rightarrow> layout \<Rightarrow> int \<Rightarrow> int \<Rightarrow> export_error + page_slice list" where
  "pages_loop clean allBands lay page prevCutY =
     (if page < pagesNeeded lay
      then (case renderPage allBands lay page prevCutY of
              (slice, prevCutY') \<Rightarrow>
                (case addSliceToPdf clean slice of
                   Some e \<Rightarrow> Inl e
                 | None \<Rightarrow>
                     (case pages_loop clean allBands lay (page + 1) prevCutY' of
                        Inl e \<Rightarrow> Inl e
                      | Inr rest \<Rightarrow> Inr (slice # rest))))
      else Inr [])"
  by pat_completeness auto
termination
  by (relation "measure (\<lambda>(clean, allBands, lay, page, prevCutY). nat (pagesNeeded lay - page))")
     auto

declare pages_loop.simps [simp del]

text \<open>
  Everything after the \<open>try\<close> block, for a raster of width \<open>w\<close> and height \<open>h\<close> whose
  origin-clean flag is \<open>clean\<close>. For a raster of width 0 \<open>scale\<close> is infinite: with height 0
  \<open>pagesNeeded\<close> is \<open>NaN\<close> and no page is emitted; otherwise \<open>pagesNeeded\<close> is \<open>Infinity\<close>, and
  on the first page \<open>drawImage\<close> throws \<open>InvalidStateError\<close>, its source canvas being empty.
\<close>

definition paginate ::
  "band list option \<Rightarrow> nat \<Rightarrow> nat \<Rightarrow> bool \<Rightarrow> string \<Rightarrow> rat \<Rightarrow> footer_source option
     \<Rightarrow> export_error + page_slice list" where
  "paginate allBands w h clean pageSize windowDpr footerLines =
     (if w = 0 then (if h = 0 then Inr [] else Inl InvalidStateError)
      else pages_loop clean allBands (pdf_layout w h pageSize windowDpr footerLines) 0 0)"

definition appendCanvasToPagedPdf ::
  "canvas \<Rightarrow> string \<Rightarrow> rat \<Rightarrow> footer_source option \<Rightarrow> export_error + page_slice list" where
  "appendCanvasToPagedPdf cv pageSize windowDpr footerLines =
     paginate (detectBands cv) (canvas_width cv) (canvas_height cv) (origin_clean cv)
       pageSize windowDpr footerLines"

text \<open>
  Inputs used below: a band as \<open>findAllWhitespaceBands\<close> builds it, the layout of an A4 export
  without footer at \<open>window.devicePixelRatio = 1\<close>, a white 2 \<times> 3 raster, and two
  343 \<times> 1000 rasters whose pixels cannot be read, one tainted and one without a 2d context.
\<close>

definition mk_band :: "int \<Rightarrow> int \<Rightarrow> band" where
  "mk_band s e = \<lparr> band_start = s, band_end = e, band_centre = (of_int s + of_int e) / 2,
                   band_width = e - s + 1 \<rparr>"

definition a4_layout :: "nat \<Rightarrow> nat \<Rightarrow> layout" where
  "a4_layout w h = pdf_layout w h ''a4'' 1 None"

definition white_canvas :: canvas where
  "white_canvas = \<lparr> canvas_width = 2, canvas_height = 3, bitmap = Pixels (replicate 24 255) \<rparr>"







section \<open>Properties\<close>

subsection \<open>Scroll planning\<close>

lemma scroll_loop_closed:
  assumes "0 < vH"
  shows "scroll_loop tH vH acc y =
           Some (acc @ map (\<lambda>i. y + int i * vH) [0..<nat ((tH - y) div vH)],
                 y + int (nat ((tH - y) div vH)) * vH)"
proof (induction "nat ((tH - y) div vH)" arbitrary: acc y)
  case 0
  then have "\<not> 0 < (tH - y) div vH" by simp
  then have "\<not> vH \<le> tH - y" using assms pos_imp_zdiv_pos_iff by blast
  then show ?case using 0 by (subst scroll_loop.simps) simp
next
  case (Suc k)
  then have pos: "0 < (tH - y) div vH" by linarith
  then have le: "vH \<le> tH - y" using assms pos_imp_zdiv_pos_iff by blast
  have d: "(tH - (y + vH)) div vH = (tH - y) div vH - 1"
    using assms div_add_self2[of vH "tH - (y + vH)"] by (simp add: algebra_simps)
  then have k: "k = nat ((tH - (y + vH)) div vH)" using Suc.hyps(2) by linarith
  have "scroll_loop tH vH acc y = scroll_loop tH vH (acc @ [y]) (y + vH)"
    using le by (subst scroll_loop.simps) simp
  also have "\<dots> = Some ((acc @ [y]) @ map (\<lambda>i. (y + vH) + int i * vH) [0..<k],
                           (y + vH) + int k * vH)"
    using Suc.hyps(1)[OF k] k by simp
  also have "\<dots> = Some (acc @ map (\<lambda>i. y + int i * vH) [0..<Suc k], y + int (Suc k) * vH)"
    by (simp add: map_upt_Suc algebra_simps del: upt_Suc)
  finally show ?case using Suc.hyps(2) by simp
qed

lemma foldl_set_insert_distinct:
  "distinct (acc @ xs) \<Longrightarrow> foldl set_insert acc xs = acc @ xs"
  by (induction xs arbitrary: acc) auto

lemma new_Set_distinct: "distinct xs \<Longrightarrow> new_Set xs = xs"
  by (simp add: new_Set_def foldl_set_insert_distinct)

lemma strict_sorted_fixed:
  fixes xs :: "int list"
  assumes "sorted_wrt (<) xs"
  shows "sort (new_Set xs) = xs"
proof -
  have "distinct xs" "sorted xs"
    using assms strict_sorted_iff by auto
  then show ?thesis by (simp add: new_Set_distinct sorted_sort_id)
qed

lemma multiples_strict:
  assumes "0 < (vH::int)"
  shows "sorted_wrt (<) (map (\<lambda>i. int i * vH) [0..<k])"
  using assms by (simp add: sorted_wrt_map sorted_wrt_iff_nth_less)

text \<open>
  The shape of a scroll plan: the properties of claim C2 below, and those that segment
  planning relies on (consecutive offsets at most one viewport apart, the last window
  reaching \<open>totalHeight\<close>).
\<close>

lemma scroll_plan_shape:
  assumes "0 < tH" and "0 < vH"
  shows "\<exists>ps. calculateScrollPositions tH vH = Some ps
            \<and> sorted_wrt (<) ps \<and> ps \<noteq> [] \<and> hd ps = 0
            \<and> (\<Union>p\<in>set ps. {p ..< p + vH}) = {0 ..< max tH vH}
            \<and> (\<forall>p\<in>set ps. p \<le> max 0 (tH - vH))
            \<and> (tH \<le> vH \<longrightarrow> ps = [0])
            \<and> successively (\<lambda>a b. b \<le> a + vH) ps \<and> last ps \<le> tH \<and> tH \<le> last ps + vH"
proof (cases "tH \<le> vH")
  case True
  then show ?thesis using assms by (simp add: calculateScrollPositions_def max_def)
next
  case False
  define k where "k = nat (tH div vH)"
  define m where "m = tH mod vH"
  have ik: "int k = tH div vH"
    using assms by (simp add: k_def pos_imp_zdiv_nonneg_iff)
  have split: "tH = int k * vH + m"
    by (simp add: ik m_def)
  have m0: "0 \<le> m" and mv: "m < vH"
    using assms by (simp_all add: m_def)
  have kpos: "0 < k"
    using False assms ik pos_imp_zdiv_pos_iff[of vH tH] by simp
  let ?base = "map (\<lambda>i. int i * vH) [0..<k]"
  let ?ps = "if m \<noteq> 0 then ?base @ [tH - vH] else ?base"
  have loop: "scroll_loop tH vH [] 0 = Some (?base, int k * vH)"
    using scroll_loop_closed[OF assms(2), of tH "[]" 0] by (simp add: k_def)
  have below: "p + vH \<le> tH - m" if "p \<in> set ?base" for p
  proof -
    from that obtain i where i: "i < k" "p = int i * vH" by auto
    then have "int i + 1 \<le> int k" by simp
    then have "(int i + 1) * vH \<le> int k * vH"
      using assms(2) by (simp only: mult_le_cancel_right) simp
    then show ?thesis using split i by (simp add: algebra_simps)
  qed
  have strict: "sorted_wrt (<) ?ps"
  proof -
    have "\<forall>x\<in>set ?base. x < tH - vH" if "m \<noteq> 0"
      using below m0 that by fastforce
    then show ?thesis
      using multiples_strict[OF assms(2), of k] by (simp add: sorted_wrt_append)
  qed
  have res: "calculateScrollPositions tH vH = Some ?ps"
  proof -
    have "(int k * vH < tH) = (m \<noteq> 0)"
      using split m0 by auto
    then show ?thesis
      using False loop strict strict_sorted_fixed[of ?ps]
      by (simp add: calculateScrollPositions_def)
  qed
  have ne: "?ps \<noteq> []" using kpos by auto
  have hd0: "hd ?ps = 0"
    using kpos by (cases k) (simp_all add: upt_rec hd_append del: upt_Suc)
  have cases_ps: "p \<in> set ?base \<or> (m \<noteq> 0 \<and> p = tH - vH)" if "p \<in> set ?ps" for p
    using that by (auto split: if_splits)
  have bound: "\<forall>p\<in>set ?ps. p \<le> max 0 (tH - vH)"
  proof
    fix p assume "p \<in> set ?ps"
    then show "p \<le> max 0 (tH - vH)"
      using cases_ps[of p] below[of p] m0 by fastforce
  qed
  have cover: "(\<Union>p\<in>set ?ps. {p ..< p + vH}) = {0 ..< max tH vH}"
  proof (intro set_eqI iffI)
    fix x assume "x \<in> (\<Union>p\<in>set ?ps. {p ..< p + vH})"
    then obtain p where p: "p \<in> set ?ps" "p \<le> x" "x < p + vH" by auto
    from cases_ps[OF p(1)] show "x \<in> {0 ..< max tH vH}"
    proof
      assume b: "p \<in> set ?base"
      then have hi: "p + vH \<le> tH" using below[of p] m0 by linarith
      have lo: "0 \<le> p" using assms(2) b by auto
      have "0 \<le> x" "x < tH" using lo hi p by linarith+
      then show ?thesis by simp
    next
      assume "m \<noteq> 0 \<and> p = tH - vH"
      then show ?thesis using p False by simp
    qed
  next
    fix x assume "x \<in> {0 ..< max tH vH}"
    then have x: "0 \<le> x" "x < tH" using False by auto
    show "x \<in> (\<Union>p\<in>set ?ps. {p ..< p + vH})"
    proof (cases "x < int k * vH")
      case True
      define i where "i = nat (x div vH)"
      have ii: "int i = x div vH"
        using x assms by (simp add: i_def pos_imp_zdiv_nonneg_iff)
      have xs: "x = int i * vH + x mod vH"
        by (simp add: ii)
      have r0: "0 \<le> x mod vH" and r1: "x mod vH < vH"
        using assms(2) by simp_all
      have "i < k"
      proof (rule ccontr)
        assume "\<not> i < k"
        then have "int k \<le> int i" by simp
        then have "int k * vH \<le> int i * vH"
          using assms(2) by (simp only: mult_le_cancel_right) simp
        then show False using True xs r0 by linarith
      qed
      moreover have "int i * vH \<le> x" using xs r0 by linarith
      moreover have "x < int i * vH + vH" using xs r1 by linarith
      ultimately show ?thesis by (auto intro!: bexI[of _ "int i * vH"])
    next
      case False
      then have "m \<noteq> 0" using x split by auto
      moreover have "tH - vH \<le> x" using False split mv by simp
      ultimately show ?thesis using x by auto
    qed
  qed
  have base_ne: "?base \<noteq> []" using kpos by simp
  have last_base: "last ?base = int (k - 1) * vH"
    using kpos by (simp add: last_map)
  have base_chain: "successively (\<lambda>a b. b \<le> a + vH) ?base"
    by (simp add: successively_conv_nth algebra_simps)
  have km: "int (k - 1) * vH = int k * vH - vH"
    using kpos by (simp add: algebra_simps of_nat_diff)
  have chain: "successively (\<lambda>a b. b \<le> a + vH) ?ps"
    using base_chain base_ne last_base km split mv
    by (simp add: successively_append_iff)
  have lst: "last ?ps \<le> tH \<and> tH \<le> last ?ps + vH"
    using last_base km split m0 assms(2) by (simp add: base_ne)
  show ?thesis
    using res strict ne hd0 bound cover False chain lst by (intro exI[of _ ?ps]) simp
qed

text \<open>
  C2 (as amended). For \<open>totalHeight > 0\<close> and \<open>viewportHeight > 0\<close>,
  \<open>calculateScrollPositions\<close> returns a strictly increasing, non-empty sequence starting
  at 0, whose windows \<open>[p, p + viewportHeight)\<close> jointly cover exactly
  \<open>[0, max(totalHeight, viewportHeight))\<close>, and in which no offset exceeds
  \<open>max(0, totalHeight - viewportHeight)\<close>; if \<open>totalHeight \<le> viewportHeight\<close> the result is
  \<open>[0]\<close>. (When the page is at least one viewport tall the two maxima are \<open>totalHeight\<close>
  and \<open>totalHeight - viewportHeight\<close>, as the specification has it.)
\<close>

theorem calculateScrollPositions_plan:
  assumes "0 < tH" and "0 < vH"
  shows "\<exists>ps. calculateScrollPositions tH vH = Some ps
            \<and> sorted_wrt (<) ps \<and> ps \<noteq> [] \<and> hd ps = 0
            \<and> (\<Union>p\<in>set ps. {p ..< p + vH}) = {0 ..< max tH vH}
            \<and> (\<forall>p\<in>set ps. p \<le> max 0 (tH - vH))
            \<and> (tH \<le> vH \<longrightarrow> ps = [0])"
  using scroll_plan_shape[OF assms] by blast

text \<open>The plan for a 2500 px page and a 1000 px viewport, an instance of the theorem.\<close>

theorem calculateScrollPositions_plan_witness:
  "(0::int) < 2500 \<and> (0::int) < 1000
   \<and> (\<exists>ps. calculateScrollPositions 2500 1000 = Some ps \<and> sorted_wrt (<) ps \<and> hd ps = 0
          \<and> (\<Union>p\<in>set ps. {p ..< p + 1000}) = {0 ..< 2500})"
  using calculateScrollPositions_plan[of 2500 1000] by auto

text \<open>
  C2 as stated fails on a page shorter than the viewport: for \<open>totalHeight = 5\<close> and
  \<open>viewportHeight = 10\<close> the result is \<open>[0]\<close>, and the offset 0 exceeds
  \<open>totalHeight - viewportHeight = -5\<close>.
\<close>

theorem calculateScrollPositions_short_page_counterexample:
  "calculateScrollPositions 5 10 = Some [0] \<and> \<not> ((0::int) \<le> 5 - 10)"
  by (simp add: calculateScrollPositions_def)

subsection \<open>Capture strategy\<close>

lemma Math_round_bounds:
  "of_int (Math_round x) \<le> x + 1 / 2" "x - 1 / 2 < of_int (Math_round x)"
  unfolding Math_round_def by linarith+











subsection \<open>Segment planning\<close>

lemma segments_loop_result:
  assumes "0 < vps"
  shows "\<exists>new. segments_loop ps vH tH vps i segs = Some (segs @ new)
            \<and> concat (map positions new) = drop i ps
            \<and> (\<forall>s\<in>set new. segment_ok vH tH s)
            \<and> map index new = [length segs ..< length segs + length new]"
proof (induction "length ps - i" arbitrary: i segs rule: less_induct)
  case less
  show ?case
  proof (cases "i < length ps")
    case False
    then show ?thesis by (subst segments_loop.simps) simp
  next
    case True
    define slice where "slice = take vps (drop i ps)"
    have ne: "slice \<noteq> []" using True assms by (simp add: slice_def)
    then obtain p rest where pr: "slice = p # rest" by (cases slice) auto
    define seg where "seg = \<lparr> index = length segs, startPositionIndex = i,
        positions = slice, startY = p, endY = min tH (last slice + vH),
        height = min tH (last slice + vH) - p \<rparr>"
    have step: "segments_loop ps vH tH vps i segs
                  = segments_loop ps vH tH vps (i + vps) (segs @ [seg])"
      using True pr
      by (subst segments_loop.simps) (simp add: slice_def[symmetric] seg_def Let_def)
    have "length ps - (i + vps) < length ps - i" using True assms by simp
    from less[OF this, of "segs @ [seg]"]
    obtain new where new: "segments_loop ps vH tH vps (i + vps) (segs @ [seg])
                             = Some ((segs @ [seg]) @ new)"
      "concat (map positions new) = drop (i + vps) ps"
      "\<forall>s\<in>set new. segment_ok vH tH s"
      "map index new = [length (segs @ [seg]) ..< length (segs @ [seg]) + length new]"
      by blast
    have ok: "segment_ok vH tH seg"
      using pr by (simp add: segment_ok_def seg_def)
    have cat: "concat (map positions (seg # new)) = drop i ps"
    proof -
      have a: "drop (i + vps) ps = drop vps (drop i ps)" by (simp add: add.commute)
      have "concat (map positions (seg # new)) = slice @ drop vps (drop i ps)"
        using new(2) a by (simp add: seg_def del: drop_drop)
      also have "\<dots> = drop i ps"
        unfolding slice_def by (rule append_take_drop_id)
      finally show ?thesis .
    qed
    have idx: "map index (seg # new) = [length segs ..< length segs + length (seg # new)]"
      using new(4) by (simp add: seg_def upt_conv_Cons del: upt_Suc)
    show ?thesis
      using step new(1) new(3) ok cat idx by (intro exI[of _ "seg # new"]) simp
  qed
qed


lemma hd_le_last:
  fixes xs :: "int list"
  shows "sorted_wrt (<) xs \<Longrightarrow> xs \<noteq> [] \<Longrightarrow> hd xs \<le> last xs"
  by (cases xs) (auto simp: less_imp_le)

lemma chunk_chain:
  assumes "\<forall>s\<in>set segs. segment_ok vH tH s"
    and "sorted_wrt (<) (concat (map positions segs))"
    and "successively (\<lambda>a b. b \<le> a + vH) (concat (map positions segs))"
    and "\<forall>p\<in>set (concat (map positions segs)). p \<le> tH"
  shows "successively (\<lambda>a b. startY a < startY b \<and> startY b \<le> endY a \<and> endY a \<le> endY b) segs"
  using assms
proof (induction segs)
  case Nil
  then show ?case by simp
next
  case (Cons s rest)
  show ?case
  proof (cases rest)
    case Nil
    then show ?thesis by simp
  next
    case (Cons s2 rest')
    have oks: "segment_ok vH tH s" and ok2: "segment_ok vH tH s2"
      using Cons.prems(1) Cons by simp_all
    have ne: "positions s \<noteq> []" and ne2: "positions s2 \<noteq> []"
      using oks ok2 by (simp_all add: segment_ok_def)
    let ?tail = "concat (map positions rest)"
    have tl_ne: "?tail \<noteq> []" and hd_tl: "hd ?tail = hd (positions s2)"
      using Cons ne2 by simp_all
    have srt: "sorted_wrt (<) (positions s @ ?tail)" using Cons.prems(2) by simp
    have suc: "successively (\<lambda>a b. b \<le> a + vH) (positions s @ ?tail)"
      using Cons.prems(3) by simp
    have step: "hd (positions s2) \<le> last (positions s) + vH"
      using suc ne tl_ne unfolding successively_append_iff hd_tl[symmetric] by blast
    have hl: "hd (positions s) \<le> last (positions s)"
      using srt ne by (simp add: sorted_wrt_append hd_le_last)
    have lt: "last (positions s) < hd (positions s2)"
      using srt ne ne2 Cons by (auto simp: sorted_wrt_append)
    have hl2: "hd (positions s2) \<le> last (positions s2)"
      using srt ne2 Cons by (simp add: sorted_wrt_append hd_le_last)
    have le_t: "hd (positions s2) \<le> tH"
      using Cons.prems(4) ne2 Cons by simp
    have q: "startY s < startY s2 \<and> startY s2 \<le> endY s \<and> endY s \<le> endY s2"
      using oks ok2 step hl lt hl2 le_t by (simp add: segment_ok_def)
    have ih: "successively (\<lambda>a b. startY a < startY b \<and> startY b \<le> endY a \<and> endY a \<le> endY b) rest"
      using Cons.IH Cons.prems srt suc
      by (simp add: sorted_wrt_append successively_append_iff)
    show ?thesis using q ih Cons by simp
  qed
qed


lemma le_last:
  fixes xs :: "int list"
  shows "p \<in> set xs \<Longrightarrow> sorted_wrt (<) xs \<Longrightarrow> p \<le> last xs"
  by (induction xs) (auto simp: less_imp_le)

lemma sorted_wrt_chunk:
  "sorted_wrt P (concat xss) \<Longrightarrow> xs \<in> set xss \<Longrightarrow> sorted_wrt P xs"
  by (induction xss) (auto simp: sorted_wrt_append)

lemma last_concat_positions:
  assumes "segs \<noteq> []" and "\<forall>s\<in>set segs. positions s \<noteq> []"
  shows "last (concat (map positions segs)) = last (positions (last segs))"
  using assms by (induction segs) auto

lemma hd_concat_positions:
  assumes "segs \<noteq> []" and "\<forall>s\<in>set segs. positions s \<noteq> []"
  shows "hd (concat (map positions segs)) = hd (positions (hd segs))"
  using assms by (cases segs) auto

lemma endY_last_mono:
  assumes "successively (\<lambda>a b. startY a < startY b \<and> startY b \<le> endY a \<and> endY a \<le> endY b) (s # rest)"
    and "rest \<noteq> []"
  shows "endY s \<le> endY (last rest)"
  using assms
proof (induction rest arbitrary: s)
  case Nil
  then show ?case by simp
next
  case (Cons a rest)
  then show ?case by (cases rest) (auto intro: order_trans)
qed

lemma chain_union:
  assumes "segs \<noteq> []"
    and "\<forall>s\<in>set segs. startY s \<le> endY s"
    and "successively (\<lambda>a b. startY a < startY b \<and> startY b \<le> endY a \<and> endY a \<le> endY b) segs"
  shows "(\<Union>s\<in>set segs. {startY s .. endY s}) = {startY (hd segs) .. endY (last segs)}"
  using assms
proof (induction segs)
  case Nil
  then show ?case by simp
next
  case (Cons s rest)
  show ?case
  proof (cases "rest = []")
    case True
    then show ?thesis by simp
  next
    case False
    then obtain s2 rest' where r: "rest = s2 # rest'" by (cases rest) auto
    have ih: "(\<Union>s\<in>set rest. {startY s .. endY s}) = {startY (hd rest) .. endY (last rest)}"
      using Cons False r by simp
    have q: "startY s < startY s2" "startY s2 \<le> endY s" "endY s \<le> endY s2"
      using Cons.prems(3) r by simp_all
    have e: "endY s \<le> endY (last rest)"
      using endY_last_mono[OF Cons.prems(3) False] .
    have "(\<Union>s\<in>set (s # rest). {startY s .. endY s})
            = {startY s .. endY s} \<union> {startY s2 .. endY (last rest)}"
      using ih r by simp
    also have "\<dots> = {startY s .. endY (last rest)}"
      using q e by auto
    finally show ?thesis using False by simp
  qed
qed

text \<open>
  C3 (as amended). For every position sequence and every \<open>viewportsPerSegment \<ge> 1\<close>,
  \<open>buildCaptureSegments\<close> returns segments, numbered from 0, whose \<open>positions\<close> lists
  concatenated in index order are exactly the input, each with \<open>startY\<close> its first position
  and \<open>endY = min(totalHeight, last position + viewportHeight)\<close>. If the input is a scroll
  plan (non-empty, starting at 0, strictly increasing, consecutive offsets at most one
  viewport apart, the last window reaching \<open>totalHeight\<close>), as every result of
  \<open>calculateScrollPositions\<close> for positive heights is, the intervals
  \<open>[startY, endY]\<close> have strictly increasing starts, each starts no later than the previous
  one ends (no gap), and together they cover exactly \<open>[0, totalHeight]\<close>. Consecutive
  intervals may overlap.
\<close>

theorem buildCaptureSegments_partition:
  assumes "0 < vps"
  shows "\<exists>segs. buildCaptureSegments ps vH tH vps = Some segs
           \<and> concat (map positions segs) = ps
           \<and> (\<forall>s\<in>set segs. segment_ok vH tH s)
           \<and> map index segs = [0 ..< length segs]
           \<and> (ps \<noteq> [] \<and> hd ps = 0 \<and> sorted_wrt (<) ps
                \<and> successively (\<lambda>a b. b \<le> a + vH) ps
                \<and> last ps \<le> tH \<and> tH \<le> last ps + vH \<longrightarrow>
                successively (\<lambda>a b. startY a < startY b \<and> startY b \<le> endY a
                                      \<and> endY a \<le> endY b) segs
                \<and> (\<Union>s\<in>set segs. {startY s .. endY s}) = {0 .. tH})
           \<and> (0 < tH \<and> 0 < vH \<and> calculateScrollPositions tH vH = Some ps \<longrightarrow>
                successively (\<lambda>a b. startY a < startY b \<and> startY b \<le> endY a
                                      \<and> endY a \<le> endY b) segs
                \<and> (\<Union>s\<in>set segs. {startY s .. endY s}) = {0 .. tH})"
proof -
  from segments_loop_result[OF assms, of ps vH tH 0 "[]"]
  obtain segs where segs: "buildCaptureSegments ps vH tH vps = Some segs"
    "concat (map positions segs) = ps" "\<forall>s\<in>set segs. segment_ok vH tH s"
    "map index segs = [0 ..< length segs]"
    by (auto simp: buildCaptureSegments_def)
  have pne: "\<forall>s\<in>set segs. positions s \<noteq> []"
    using segs(3) by (simp add: segment_ok_def)
  have geo: "successively (\<lambda>a b. startY a < startY b \<and> startY b \<le> endY a
                                      \<and> endY a \<le> endY b) segs
             \<and> (\<Union>s\<in>set segs. {startY s .. endY s}) = {0 .. tH}"
    if sp: "ps \<noteq> []" "hd ps = 0" "sorted_wrt (<) ps"
      "successively (\<lambda>a b. b \<le> a + vH) ps" "last ps \<le> tH" "tH \<le> last ps + vH"
  proof -
    have sne: "segs \<noteq> []" using segs(2) sp(1) by auto
    have all_le: "\<forall>p\<in>set ps. p \<le> tH"
    proof
      fix p assume "p \<in> set ps"
      then have "p \<le> last ps"
        using sp(3) by (rule le_last)
      then show "p \<le> tH" using sp(5) by simp
    qed
    have chain: "successively (\<lambda>a b. startY a < startY b \<and> startY b \<le> endY a
                                      \<and> endY a \<le> endY b) segs"
      using chunk_chain[of segs vH tH] segs(2,3) sp(3,4) all_le by simp
    have first: "startY (hd segs) = 0"
      using hd_concat_positions[OF sne pne] segs(2,3) sp(2) sne
      by (simp add: segment_ok_def)
    have final: "endY (last segs) = tH"
      using last_concat_positions[OF sne pne] segs(2,3) sp(5,6) sne
      by (simp add: segment_ok_def)
    have each: "\<forall>s\<in>set segs. startY s \<le> endY s"
    proof
      fix s assume s: "s \<in> set segs"
      then have ok: "segment_ok vH tH s" using segs(3) by simp
      have sub: "set (positions s) \<subseteq> set ps" using s segs(2) by auto
      have sorted_s: "sorted_wrt (<) (positions s)"
        using sorted_wrt_chunk[of "(<)" "map positions segs" "positions s"] s segs(2) sp(3)
        by simp
      have "hd (positions s) \<le> last (positions s)"
        using hd_le_last[OF sorted_s] ok by (simp add: segment_ok_def)
      moreover have "hd (positions s) \<le> tH"
        using ok sub all_le by (simp add: segment_ok_def subset_iff)
      moreover have "0 \<le> vH" using sp(5,6) by simp
      ultimately show "startY s \<le> endY s" using ok by (simp add: segment_ok_def)
    qed
    show ?thesis
      using chain chain_union[OF sne each chain] first final by simp
  qed
  have planned: "successively (\<lambda>a b. startY a < startY b \<and> startY b \<le> endY a
                                      \<and> endY a \<le> endY b) segs
             \<and> (\<Union>s\<in>set segs. {startY s .. endY s}) = {0 .. tH}"
    if "0 < tH" "0 < vH" "calculateScrollPositions tH vH = Some ps"
    using scroll_plan_shape[OF that(1,2)] that(3) geo by auto
  show ?thesis using segs geo planned by (intro exI[of _ segs]) simp
qed

text \<open>The plan \<open>[0, 1000, 1500]\<close> of a 2500 px page, two viewports per segment.\<close>

theorem buildCaptureSegments_partition_witness:
  "(0::nat) < 2
   \<and> (\<exists>segs. buildCaptureSegments [0, 1000, 1500] 1000 2500 2 = Some segs
          \<and> concat (map positions segs) = [0, 1000, 1500]
          \<and> (\<Union>s\<in>set segs. {startY s .. endY s}) = {0 .. 2500})"
  using buildCaptureSegments_partition[where vps = 2 and ps = "[0, 1000, 1500]"
      and vH = 1000 and tH = 2500]
  by simp blast

text \<open>
  C3 as stated fails on that plan: the two segments are \<open>[0, 2000]\<close> and \<open>[1500, 2500]\<close>,
  and the second starts 500 px before the first ends.
\<close>

theorem buildCaptureSegments_overlap_counterexample:
  "calculateScrollPositions 2500 1000 = Some [0, 1000, 1500]
   \<and> buildCaptureSegments [0, 1000, 1500] 1000 2500 2
       = Some [\<lparr> index = 0, startPositionIndex = 0, positions = [0, 1000],
                   startY = 0, endY = 2000, height = 2000 \<rparr>,
               \<lparr> index = 1, startPositionIndex = 2, positions = [1500],
                   startY = 1500, endY = 2500, height = 1000 \<rparr>]
   \<and> (1500::int) < 2000"
  by code_simp

subsection \<open>Viewport stitching\<close>

lemma Math_round_of_int: "Math_round (of_int n) = n"
  unfolding Math_round_def by (rule floor_unique) simp_all

lemma crop_below_source:
  assumes "0 < ov" and "ov < h" and "h \<le> H"
  shows "overlap_src_px ov h H < H"
proof -
  have hpos: "0 < h" and Hpos: "0 < H" using assms by linarith+
  have "ov * H \<le> (h - 1) * H"
    using assms(2) Hpos by (intro mult_right_mono) simp_all
  then have i: "2 * (ov * H) + h < 2 * (H * h)"
    using assms(3) Hpos by (simp add: algebra_simps)
  have "(of_int (2 * (ov * H) + h) :: rat) < of_int (2 * (H * h))"
    using i by (simp only: of_int_less_iff)
  then have r: "2 * (of_int ov * of_int H) + of_int h < 2 * (of_int H * (of_int h :: rat))"
    by simp
  have h0: "(0::rat) < of_int h" using hpos by simp
  have "(of_int ov / of_int h) * of_int H + 1 / 2 < (of_int H :: rat)"
    using r h0 by (simp add: field_simps)
  then show ?thesis by (simp add: overlap_src_px_def Math_round_def floor_less_iff)
qed

lemma writers_single:
  "writers r [d] = (if destCropY d \<le> r \<and> r < destCropY d + destDrawH d then [draw_img d] else [])"
  by (simp add: writers_def writes_row_def)

lemma writers_append: "writers r (xs @ ys) = writers r xs @ writers r ys"
  by (simp add: writers_def)

lemma stitch_step:
  assumes im: "img m = Some im"
    and later: "(\<not> isFirst m \<and> 0 < yOffset m)
                  \<or> lastDrawnBottomY c = msg_drawY (scale (canvasStrategy c)) m"
    and dY: "msg_drawY (scale (canvasStrategy c)) m \<le> lastDrawnBottomY c"
    and L: "lastDrawnBottomY c
              \<le> msg_drawY (scale (canvasStrategy c)) m + msg_drawHeight (scale (canvasStrategy c)) m"
    and h: "0 < msg_drawHeight (scale (canvasStrategy c)) m"
      "msg_drawHeight (scale (canvasStrategy c)) m \<le> naturalHeight im"
  shows "\<exists>c' new. stitchViewport (Some c) m = Inr c'
           \<and> canvasStrategy c' = canvasStrategy c
           \<and> lastDrawnBottomY c'
               = msg_drawY (scale (canvasStrategy c)) m + msg_drawHeight (scale (canvasStrategy c)) m
           \<and> draws c' = draws c @ new
           \<and> (\<forall>r. writers r new
                    = (if lastDrawnBottomY c \<le> r \<and> r < lastDrawnBottomY c' then [imgId im] else []))"
proof -
  define s where "s = scale (canvasStrategy c)"
  define y where "y = msg_drawY s m"
  define hh where "hh = msg_drawHeight s m"
  define bot where "bot = lastDrawnBottomY c"
  note facts = dY L h
  have f: "y \<le> bot" "bot \<le> y + hh" "0 < hh" "hh \<le> naturalHeight im"
    using facts by (simp_all add: s_def y_def hh_def bot_def)
  show ?thesis
  proof (cases "y < bot")
    case True
    then have nz: "or_else bot 0 = bot" using f by (auto simp: or_else_def)
    have lt: "\<not> isFirst m" "0 < yOffset m"
      using later True by (auto simp: bot_def y_def s_def)
    define crop where "crop = overlap_src_px (bot - y) hh (naturalHeight im)"
    show ?thesis
    proof (cases "bot < y + hh")
      case inside: True
      have "crop < naturalHeight im"
        unfolding crop_def using True inside f by (intro crop_below_source) simp_all
      then have sd: "0 < naturalHeight im - crop" by simp
      define d where "d = \<lparr> draw_img = imgId im, srcCropY = crop, srcW = naturalWidth im,
          srcDrawH = naturalHeight im - crop, destCropY = bot,
          drawWidth = canvasWidth (canvasStrategy c), destDrawH = hh - (bot - y) \<rparr>"
      have res: "stitchViewport (Some c) m
                   = Inr (c \<lparr> draws := draws c @ [d], lastDrawnBottomY := bot + (hh - (bot - y)) \<rparr>)"
        using im lt True inside sd nz
        by (simp add: stitchViewport_def Let_def s_def[symmetric] y_def[symmetric]
            hh_def[symmetric] bot_def[symmetric] crop_def[symmetric] d_def)
      show ?thesis
        unfolding res s_def[symmetric] y_def[symmetric] hh_def[symmetric] bot_def[symmetric]
        by (intro exI[of _ "c \<lparr> draws := draws c @ [d], lastDrawnBottomY := bot + (hh - (bot - y)) \<rparr>"]
            exI[of _ "[d]"]) (auto simp: writers_single d_def)
    next
      case False
      then have eq: "bot = y + hh" using f by simp
      have res: "stitchViewport (Some c) m = Inr (c \<lparr> draws := draws c, lastDrawnBottomY := bot \<rparr>)"
        using im lt True nz eq
        by (simp add: stitchViewport_def Let_def s_def[symmetric] y_def[symmetric]
            hh_def[symmetric] bot_def[symmetric])
      show ?thesis
        unfolding res s_def[symmetric] y_def[symmetric] hh_def[symmetric] bot_def[symmetric]
        using eq
        by (intro exI[of _ "c \<lparr> draws := draws c, lastDrawnBottomY := bot \<rparr>"] exI[of _ "[]"])
          (auto simp: writers_def)
    qed
  next
    case False
    then have eq: "bot = y" using f by simp
    have no: "\<not> or_else bot 0 > y" using eq by (simp add: or_else_def)
    define d where "d = \<lparr> draw_img = imgId im, srcCropY = 0, srcW = naturalWidth im,
          srcDrawH = naturalHeight im, destCropY = y,
          drawWidth = canvasWidth (canvasStrategy c), destDrawH = hh \<rparr>"
    have sd: "0 < naturalHeight im" using f by linarith
    have res: "stitchViewport (Some c) m
                 = Inr (c \<lparr> draws := draws c @ [d], lastDrawnBottomY := y + hh \<rparr>)"
      using im no f(3) sd
      by (simp add: stitchViewport_def Let_def s_def[symmetric] y_def[symmetric]
          hh_def[symmetric] bot_def[symmetric] d_def)
    show ?thesis
      unfolding res s_def[symmetric] y_def[symmetric] hh_def[symmetric] bot_def[symmetric]
      using eq
      by (intro exI[of _ "c \<lparr> draws := draws c @ [d], lastDrawnBottomY := y + hh \<rparr>"]
          exI[of _ "[d]"]) (auto simp: writers_single d_def)
  qed
qed


lemma stitch_tail:
  assumes "scale (canvasStrategy c) = s"
    and "\<forall>m\<in>set msgs. \<not> isFirst m \<and> 0 < yOffset m \<and> msg_drawHeight s m = h
            \<and> (\<exists>im. img m = Some im \<and> h \<le> naturalHeight im)"
    and "0 < h"
    and "successively (\<lambda>a b. msg_drawY s a \<le> msg_drawY s b
                              \<and> msg_drawY s b \<le> msg_drawY s a + h) msgs"
    and "msgs \<noteq> [] \<longrightarrow> msg_drawY s (hd msgs) \<le> lastDrawnBottomY c
                          \<and> lastDrawnBottomY c \<le> msg_drawY s (hd msgs) + h"
  shows "\<exists>c' new. stitchAll c msgs = Inr c'
           \<and> canvasStrategy c' = canvasStrategy c
           \<and> lastDrawnBottomY c'
               = (if msgs = [] then lastDrawnBottomY c else msg_drawY s (last msgs) + h)
           \<and> draws c' = draws c @ new
           \<and> (\<forall>r. r < lastDrawnBottomY c \<longrightarrow> writers r new = [])
           \<and> (\<forall>r. lastDrawnBottomY c \<le> r \<and> r < lastDrawnBottomY c' \<longrightarrow>
                  (\<exists>m im. find (\<lambda>m. covers s m r) msgs = Some m \<and> img m = Some im
                           \<and> writers r new = [imgId im]))"
  using assms
proof (induction msgs arbitrary: c)
  case Nil
  then show ?case by (simp add: writers_def)
next
  case (Cons m ms)
  from Cons.prems(2) obtain im where m: "\<not> isFirst m" "0 < yOffset m"
    "msg_drawHeight s m = h" "img m = Some im" "h \<le> naturalHeight im"
    by auto
  have st: "msg_drawY s m \<le> lastDrawnBottomY c" "lastDrawnBottomY c \<le> msg_drawY s m + h"
    using Cons.prems(5) by simp_all
  from stitch_step[of m im c] m st Cons.prems(1,3)
  obtain c1 new1 where c1: "stitchViewport (Some c) m = Inr c1"
    "canvasStrategy c1 = canvasStrategy c"
    "lastDrawnBottomY c1 = msg_drawY s m + h"
    "draws c1 = draws c @ new1"
    "\<forall>r. writers r new1
           = (if lastDrawnBottomY c \<le> r \<and> r < lastDrawnBottomY c1 then [imgId im] else [])"
    by auto
  have sc1: "scale (canvasStrategy c1) = s" using c1(2) Cons.prems(1) by simp
  have all1: "\<forall>m\<in>set ms. \<not> isFirst m \<and> 0 < yOffset m \<and> msg_drawHeight s m = h
            \<and> (\<exists>im. img m = Some im \<and> h \<le> naturalHeight im)"
    using Cons.prems(2) by simp
  have ch1: "successively (\<lambda>a b. msg_drawY s a \<le> msg_drawY s b
                              \<and> msg_drawY s b \<le> msg_drawY s a + h) ms"
    using Cons.prems(4) by (auto simp: successively_Cons)
  have nxt: "ms \<noteq> [] \<longrightarrow> msg_drawY s (hd ms) \<le> lastDrawnBottomY c1
                          \<and> lastDrawnBottomY c1 \<le> msg_drawY s (hd ms) + h"
    using Cons.prems(4) c1(3) by (auto simp: successively_Cons)
  from Cons.IH[OF sc1 all1 Cons.prems(3) ch1 nxt]
  obtain c2 new2 where c2: "stitchAll c1 ms = Inr c2"
    "canvasStrategy c2 = canvasStrategy c1"
    "lastDrawnBottomY c2
       = (if ms = [] then lastDrawnBottomY c1 else msg_drawY s (last ms) + h)"
    "draws c2 = draws c1 @ new2"
    "\<forall>r. r < lastDrawnBottomY c1 \<longrightarrow> writers r new2 = []"
    "\<forall>r. lastDrawnBottomY c1 \<le> r \<and> r < lastDrawnBottomY c2 \<longrightarrow>
          (\<exists>m im. find (\<lambda>m. covers s m r) ms = Some m \<and> img m = Some im
                   \<and> writers r new2 = [imgId im])"
    by blast
  have mono: "lastDrawnBottomY c \<le> lastDrawnBottomY c1" using st c1(3) by simp
  have low: "writers r (new1 @ new2) = []" if "r < lastDrawnBottomY c" for r
    using that c1(5) c2(5) mono by (simp add: writers_append)
  have mid: "\<exists>m' im'. find (\<lambda>m. covers s m r) (m # ms) = Some m' \<and> img m' = Some im'
                   \<and> writers r (new1 @ new2) = [imgId im']"
    if r: "lastDrawnBottomY c \<le> r" "r < lastDrawnBottomY c2" for r
  proof (cases "r < lastDrawnBottomY c1")
    case True
    have "covers s m r" using True r(1) st c1(3) m(3) by (simp add: covers_def)
    moreover have "writers r (new1 @ new2) = [imgId im]"
      using True r(1) c1(5) c2(5) by (simp add: writers_append)
    ultimately show ?thesis using m(4) by simp
  next
    case False
    then have "\<not> covers s m r" using c1(3) m(3) by (simp add: covers_def)
    moreover obtain m' im' where "find (\<lambda>m. covers s m r) ms = Some m'" "img m' = Some im'"
      "writers r new2 = [imgId im']"
      using c2(6) False r(2) by (metis not_less)
    moreover have "writers r new1 = []" using False c1(5) by simp
    ultimately show ?thesis by (simp add: writers_append)
  qed
  have bottom: "lastDrawnBottomY c2 = msg_drawY s (last (m # ms)) + h"
    using c2(3) c1(3) by simp
  have run: "stitchAll c (m # ms) = Inr c2" using c1(1) c2(1) by simp
  show ?case
    using run c2(2) c1(2) bottom c2(4) c1(4) low mid
    by (intro exI[of _ c2] exI[of _ "new1 @ new2"]) simp
qed


text \<open>
  C4 (as amended). Let the captures of a segment be stitched in scroll order onto a
  freshly prepared canvas, the first at offset 0, the later ones at positive offsets and
  not flagged \<open>isFirst\<close>, all with the same window height \<open>drawHeight > 0\<close> and with images
  at least \<open>drawHeight\<close> rows tall, such that the canvas windows
  \<open>[drawY, drawY + drawHeight)\<close> are in non-decreasing order and leave no gap. Then
  every stitch succeeds and, for every canvas row below the last window's bottom edge,
  exactly one \<open>drawImage\<close> call writes the row: the one of the \<^emph>\<open>earliest\<close> capture (top-most
  in scroll order) whose window covers the row. A later capture's overlapping top rows
  are cropped, not redrawn.
\<close>

theorem stitchViewport_rows_written_once:
  assumes prepared: "lastDrawnBottomY c = 0" "draws c = []" "scale (canvasStrategy c) = s"
    and first: "yOffset m0 = 0"
    and later: "\<forall>m\<in>set ms. \<not> isFirst m \<and> 0 < yOffset m"
    and imgs: "\<forall>m\<in>set (m0 # ms). msg_drawHeight s m = h
                 \<and> (\<exists>im. img m = Some im \<and> h \<le> naturalHeight im)"
    and hpos: "0 < h"
    and chain: "successively (\<lambda>a b. msg_drawY s a \<le> msg_drawY s b
                                  \<and> msg_drawY s b \<le> msg_drawY s a + h) (m0 # ms)"
  shows "\<exists>c'. stitchAll c (m0 # ms) = Inr c'
           \<and> lastDrawnBottomY c' = msg_drawY s (last (m0 # ms)) + h
           \<and> (\<forall>r. 0 \<le> r \<and> r < lastDrawnBottomY c' \<longrightarrow>
                  (\<exists>m im. find (\<lambda>m. covers s m r) (m0 # ms) = Some m \<and> img m = Some im
                           \<and> writers r (draws c') = [imgId im]))"
proof -
  have y0: "msg_drawY s m0 = 0"
    using first Math_round_of_int[of 0] by (simp add: msg_drawY_def)
  from imgs obtain im0 where m0: "msg_drawHeight s m0 = h" "img m0 = Some im0"
    "h \<le> naturalHeight im0"
    by auto
  from stitch_step[of m0 im0 c] m0 y0 prepared hpos
  obtain c1 new1 where c1: "stitchViewport (Some c) m0 = Inr c1"
    "canvasStrategy c1 = canvasStrategy c"
    "lastDrawnBottomY c1 = h"
    "draws c1 = new1"
    "\<forall>r. writers r new1 = (if 0 \<le> r \<and> r < h then [imgId im0] else [])"
    by auto
  have sc1: "scale (canvasStrategy c1) = s" using c1(2) prepared(3) by simp
  have all1: "\<forall>m\<in>set ms. \<not> isFirst m \<and> 0 < yOffset m \<and> msg_drawHeight s m = h
            \<and> (\<exists>im. img m = Some im \<and> h \<le> naturalHeight im)"
    using later imgs by simp
  have ch1: "successively (\<lambda>a b. msg_drawY s a \<le> msg_drawY s b
                              \<and> msg_drawY s b \<le> msg_drawY s a + h) ms"
    using chain by (auto simp: successively_Cons)
  have nxt: "ms \<noteq> [] \<longrightarrow> msg_drawY s (hd ms) \<le> lastDrawnBottomY c1
                          \<and> lastDrawnBottomY c1 \<le> msg_drawY s (hd ms) + h"
    using chain c1(3) y0 by (auto simp: successively_Cons)
  from stitch_tail[OF sc1 all1 hpos ch1 nxt]
  obtain c2 new2 where c2: "stitchAll c1 ms = Inr c2"
    "lastDrawnBottomY c2
       = (if ms = [] then lastDrawnBottomY c1 else msg_drawY s (last ms) + h)"
    "draws c2 = draws c1 @ new2"
    "\<forall>r. r < lastDrawnBottomY c1 \<longrightarrow> writers r new2 = []"
    "\<forall>r. lastDrawnBottomY c1 \<le> r \<and> r < lastDrawnBottomY c2 \<longrightarrow>
          (\<exists>m im. find (\<lambda>m. covers s m r) ms = Some m \<and> img m = Some im
                   \<and> writers r new2 = [imgId im])"
    by blast
  have run: "stitchAll c (m0 # ms) = Inr c2" using c1(1) c2(1) by simp
  have bottom: "lastDrawnBottomY c2 = msg_drawY s (last (m0 # ms)) + h"
    using c2(2) c1(3) y0 by simp
  have rows: "\<exists>m im. find (\<lambda>m. covers s m r) (m0 # ms) = Some m \<and> img m = Some im
                   \<and> writers r (draws c2) = [imgId im]"
    if r: "0 \<le> r" "r < lastDrawnBottomY c2" for r
  proof (cases "r < h")
    case True
    have "covers s m0 r" using True r(1) y0 m0(1) by (simp add: covers_def)
    moreover have "writers r (draws c2) = [imgId im0]"
      using True r(1) c1(3,4,5) c2(3,4) by (simp add: writers_append)
    ultimately show ?thesis using m0(2) by simp
  next
    case False
    then have "\<not> covers s m0 r" using y0 m0(1) by (simp add: covers_def)
    moreover obtain m' im' where "find (\<lambda>m. covers s m r) ms = Some m'" "img m' = Some im'"
      "writers r new2 = [imgId im']"
      using c2(5) False r(2) c1(3) by (metis not_less)
    moreover have "writers r new1 = []" using False c1(5) by simp
    ultimately show ?thesis using c1(4) c2(3) by (simp add: writers_append)
  qed
  show ?thesis using run bottom rows by (intro exI[of _ c2]) simp
qed

lemma capture_eval:
  "msg_drawY 1 (capture n y f) = y" "msg_drawHeight 1 (capture n y f) = 100"
  using Math_round_of_int[of y] Math_round_of_int[of 100]
  by (simp_all add: msg_drawY_def msg_drawHeight_def capture_def)

text \<open>
  Two captures at offsets 0 and 50 with 100-row windows: row 70 is written by the first,
  row 120 by the second.
\<close>

theorem stitchViewport_rows_written_once_witness:
  "\<exists>c'. stitchAll blank_canvas [capture 0 0 True, capture 1 50 False] = Inr c'
         \<and> lastDrawnBottomY c' = 150
         \<and> writers 70 (draws c') = [0] \<and> writers 120 (draws c') = [1]"
proof -
  have a: "lastDrawnBottomY blank_canvas = 0" "draws blank_canvas = []"
    "scale (canvasStrategy blank_canvas) = 1"
    by (simp_all add: blank_canvas_def)
  have b: "yOffset (capture 0 0 True) = 0" by (simp add: capture_def)
  have c: "\<forall>m\<in>set [capture 1 50 False]. \<not> isFirst m \<and> 0 < yOffset m"
    by (simp add: capture_def)
  have d: "\<forall>m\<in>set [capture 0 0 True, capture 1 50 False]. msg_drawHeight 1 m = 100
                 \<and> (\<exists>im. img m = Some im \<and> 100 \<le> naturalHeight im)"
    by (simp add: capture_eval) (simp add: capture_def)
  have e: "successively (\<lambda>a b. msg_drawY 1 a \<le> msg_drawY 1 b
              \<and> msg_drawY 1 b \<le> msg_drawY 1 a + 100) [capture 0 0 True, capture 1 50 False]"
    by (simp add: capture_eval)
  from stitchViewport_rows_written_once[OF a b c d _ e]
  obtain c' where c': "stitchAll blank_canvas [capture 0 0 True, capture 1 50 False] = Inr c'"
    "lastDrawnBottomY c' = msg_drawY 1 (last [capture 0 0 True, capture 1 50 False]) + 100"
    "\<forall>r. 0 \<le> r \<and> r < lastDrawnBottomY c' \<longrightarrow>
         (\<exists>m im. find (\<lambda>m. covers 1 m r) [capture 0 0 True, capture 1 50 False] = Some m
                  \<and> img m = Some im \<and> writers r (draws c') = [imgId im])"
    by auto
  have bot: "lastDrawnBottomY c' = 150" using c'(2) by (simp add: capture_eval)
  have "writers 70 (draws c') = [0]"
    using c'(3)[rule_format, of 70] bot by (auto simp: covers_def capture_eval) (auto simp: capture_def)
  moreover have "writers 120 (draws c') = [1]"
    using c'(3)[rule_format, of 120] bot by (auto simp: covers_def capture_eval) (auto simp: capture_def)
  ultimately show ?thesis using c'(1) bot by simp
qed

lemma zoomed_stitch:
  "prepareCanvas 1000 1812 (11 / 10) = Inr zoomed_canvas"
  "stitchAll zoomed_canvas
     [zoomed_capture 0 0 True, zoomed_capture 1 604 False, zoomed_capture 2 1208 False]
   = Inr \<lparr> canvasStrategy = \<lparr> scale = 11 / 10, canvasWidth = 1100, canvasHeight = 1993 \<rparr>,
           lastDrawnBottomY = 1993,
           draws = [\<lparr> draw_img = 0, srcCropY = 0, srcW = 1100, srcDrawH = 664,
                      destCropY = 0, drawWidth = 1100, destDrawH = 664 \<rparr>,
                    \<lparr> draw_img = 1, srcCropY = 0, srcW = 1100, srcDrawH = 664,
                      destCropY = 664, drawWidth = 1100, destDrawH = 664 \<rparr>,
                    \<lparr> draw_img = 2, srcCropY = 0, srcW = 1100, srcDrawH = 664,
                      destCropY = 1329, drawWidth = 1100, destDrawH = 664 \<rparr>] \<rparr>"
  by code_simp+

text \<open>
  C4 as stated fails on the two captures above: row 70 lies in both windows, the latest
  capture covering it is capture 1, and the only \<open>drawImage\<close> call that writes it is the
  one of capture 0. It also fails where rounding separates windows that are contiguous in
  CSS px: three captures of a 604 px viewport at scale 1.1, at offsets 0, 604 and 1208,
  are drawn at canvas rows 0, 664 and 1329, and no call writes row 1328.
\<close>

theorem stitchViewport_latest_capture_counterexample:
  "prepareCanvas 200 150 1 = Inr blank_canvas
   \<and> stitchAll blank_canvas [capture 0 0 True, capture 1 50 False]
       = Inr \<lparr> canvasStrategy = \<lparr> scale = 1, canvasWidth = 200, canvasHeight = 150 \<rparr>,
               lastDrawnBottomY = 150,
               draws = [\<lparr> draw_img = 0, srcCropY = 0, srcW = 200, srcDrawH = 100,
                          destCropY = 0, drawWidth = 200, destDrawH = 100 \<rparr>,
                        \<lparr> draw_img = 1, srcCropY = 50, srcW = 200, srcDrawH = 50,
                          destCropY = 100, drawWidth = 200, destDrawH = 50 \<rparr>] \<rparr>
   \<and> covers 1 (capture 0 0 True) 70 \<and> covers 1 (capture 1 50 False) 70
   \<and> writers 70 [\<lparr> draw_img = 0, srcCropY = 0, srcW = 200, srcDrawH = 100,
                     destCropY = 0, drawWidth = 200, destDrawH = 100 \<rparr>,
                   \<lparr> draw_img = 1, srcCropY = 50, srcW = 200, srcDrawH = 50,
                     destCropY = 100, drawWidth = 200, destDrawH = 50 \<rparr>] = [0]
   \<and> prepareCanvas 1000 1812 (11 / 10) = Inr zoomed_canvas
   \<and> stitchAll zoomed_canvas
         [zoomed_capture 0 0 True, zoomed_capture 1 604 False, zoomed_capture 2 1208 False]
       = Inr \<lparr> canvasStrategy = \<lparr> scale = 11 / 10, canvasWidth = 1100, canvasHeight = 1993 \<rparr>,
               lastDrawnBottomY = 1993,
               draws = [\<lparr> draw_img = 0, srcCropY = 0, srcW = 1100, srcDrawH = 664,
                          destCropY = 0, drawWidth = 1100, destDrawH = 664 \<rparr>,
                        \<lparr> draw_img = 1, srcCropY = 0, srcW = 1100, srcDrawH = 664,
                          destCropY = 664, drawWidth = 1100, destDrawH = 664 \<rparr>,
                        \<lparr> draw_img = 2, srcCropY = 0, srcW = 1100, srcDrawH = 664,
                          destCropY = 1329, drawWidth = 1100, destDrawH = 664 \<rparr>] \<rparr>
   \<and> writers 1328 [\<lparr> draw_img = 0, srcCropY = 0, srcW = 1100, srcDrawH = 664,
                       destCropY = 0, drawWidth = 1100, destDrawH = 664 \<rparr>,
                     \<lparr> draw_img = 1, srcCropY = 0, srcW = 1100, srcDrawH = 664,
                       destCropY = 664, drawWidth = 1100, destDrawH = 664 \<rparr>,
                     \<lparr> draw_img = 2, srcCropY = 0, srcW = 1100, srcDrawH = 664,
                       destCropY = 1329, drawWidth = 1100, destDrawH = 664 \<rparr>] = []"
proof -
  have a: "prepareCanvas 200 150 1 = Inr blank_canvas"
    by code_simp
  have b: "stitchAll blank_canvas [capture 0 0 True, capture 1 50 False]
       = Inr \<lparr> canvasStrategy = \<lparr> scale = 1, canvasWidth = 200, canvasHeight = 150 \<rparr>,
               lastDrawnBottomY = 150,
               draws = [\<lparr> draw_img = 0, srcCropY = 0, srcW = 200, srcDrawH = 100,
                          destCropY = 0, drawWidth = 200, destDrawH = 100 \<rparr>,
                        \<lparr> draw_img = 1, srcCropY = 50, srcW = 200, srcDrawH = 50,
                          destCropY = 100, drawWidth = 200, destDrawH = 50 \<rparr>] \<rparr>"
    by code_simp
  have c: "covers 1 (capture 0 0 True) 70" "covers 1 (capture 1 50 False) 70"
    by (simp_all add: covers_def capture_eval)
  show ?thesis
    using a b c zoomed_stitch by (simp add: writers_def writes_row_def)
qed

subsection \<open>Pagination\<close>

text \<open>Evaluating floors and ceilings of numeral fractions.\<close>

lemma floor_rat_numeral: "\<lfloor>(numeral a / numeral b :: rat)\<rfloor> = numeral a div numeral b"
  using floor_divide_of_int_eq[of "numeral a" "numeral b", where 'a = rat] by simp

lemma ceiling_rat_numeral:
  "\<lceil>(numeral a / numeral b :: rat)\<rceil> = - ((- numeral a) div numeral b)"
  using ceiling_def[of "numeral a / numeral b :: rat"]
    floor_divide_of_int_eq[of "- numeral a" "numeral b", where 'a = rat]
  by simp

lemma Math_round_1: "Math_round 1 = 1"
  using Math_round_of_int[of 1] by simp

lemmas layout_eval = a4_layout_def pdf_layout_def pxToMm_def pageDims_def contentW_def
  contentH_def footerReservedMm_def Let_def margin_def footerLineCount_def
  or_else_def Math_round_1 Math_ceil_def floor_rat_numeral ceiling_rat_numeral

lemmas page_eval = renderPage_def findCut_def nominalEndY_def sliceStart_def Let_def
  Math_round_def mk_band_def closer_def OVERLAP_PX_def floor_rat_numeral


lemma lay_343_3000:
  "a4_layout 343 3000 = \<lparr> lay_height = 3000, imgHeightMm = 3175 / 4,
      pdf_scale = 91200 / 43561, imageContentH = 277, pagesNeeded = 6,
      contentHPx = 95011 / 190 \<rparr>"
  by (simp add: layout_eval)

lemma lay_343_1500:
  "a4_layout 343 1500 = \<lparr> lay_height = 1500, imgHeightMm = 3175 / 8,
      pdf_scale = 91200 / 43561, imageContentH = 277, pagesNeeded = 3,
      contentHPx = 95011 / 190 \<rparr>"
  by (simp add: layout_eval)

lemma lay_1000_3000:
  "a4_layout 1000 3000 = \<lparr> lay_height = 3000, imgHeightMm = 3175 / 4,
      pdf_scale = 456 / 635, imageContentH = 277, pagesNeeded = 3,
      contentHPx = 27700 / 19 \<rparr>"
  by (simp add: layout_eval)

lemma lay_2_3:
  "a4_layout 2 3 = \<lparr> lay_height = 3, imgHeightMm = 127 / 160, pdf_scale = 45600 / 127,
      imageContentH = 277, pagesNeeded = 2, contentHPx = 277 / 95 \<rparr>"
  by (simp add: layout_eval)


lemma renderPage_srcH:
  assumes "renderPage allBands lay page prevCutY = (sl, p')"
  shows "1 \<le> srcH sl \<and> srcH sl \<le> max 1 (Math_round (contentHPx lay))"
  using assms
  by (auto simp: renderPage_def Let_def split: prod.splits)

lemma pages_loop_stop:
  "\<not> page < pagesNeeded lay \<Longrightarrow> pages_loop clean allBands lay page prevCutY = Inr []"
  by (subst pages_loop.simps) simp

lemma pages_loop_step:
  "page < pagesNeeded lay \<Longrightarrow> renderPage allBands lay page prevCutY = (sl, p')
     \<Longrightarrow> pages_loop True allBands lay (page + 1) p' = Inr rest
     \<Longrightarrow> pages_loop True allBands lay page prevCutY = Inr (sl # rest)"
  by (subst pages_loop.simps) (simp add: addSliceToPdf_def)


lemma pages_loop_Inr:
  assumes "pages_loop clean allBands lay page prevCutY = Inr slices" and "page < pagesNeeded lay"
  obtains sl p' rest where "renderPage allBands lay page prevCutY = (sl, p')"
    and "pages_loop clean allBands lay (page + 1) p' = Inr rest" and "slices = sl # rest"
    and "clean"
proof -
  obtain sl p' where r: "renderPage allBands lay page prevCutY = (sl, p')"
    by (cases "renderPage allBands lay page prevCutY")
  have c: "clean"
    using assms r by (subst (asm) pages_loop.simps) (auto simp: addSliceToPdf_def split: if_splits)
  obtain rest where "pages_loop clean allBands lay (page + 1) p' = Inr rest" "slices = sl # rest"
    using assms r c
    by (subst (asm) pages_loop.simps) (auto simp: addSliceToPdf_def split: sum.splits)
  then show ?thesis using that r c by blast
qed

lemma pages_loop_returns:
  "clean \<Longrightarrow> \<exists>slices. pages_loop clean allBands lay page prevCutY = Inr slices"
proof (induction clean allBands lay page prevCutY rule: pages_loop.induct)
  case (1 clean allBands lay page prevCutY)
  show ?case
  proof (cases "page < pagesNeeded lay")
    case True
    obtain sl p' where r: "renderPage allBands lay page prevCutY = (sl, p')"
      by (cases "renderPage allBands lay page prevCutY")
    have ok: "addSliceToPdf clean sl = None" using "1.prems" by (simp add: addSliceToPdf_def)
    obtain rest where "pages_loop clean allBands lay (page + 1) p' = Inr rest"
      using "1.IH"[OF True r[symmetric] ok "1.prems"] by blast
    then show ?thesis
      using pages_loop_step[OF True r, of rest] "1.prems" by simp
  next
    case False
    then show ?thesis by (simp add: pages_loop_stop)
  qed
qed

lemma length_pages_loop:
  "pages_loop clean allBands lay page prevCutY = Inr slices \<Longrightarrow>
     int (length slices) = max 0 (pagesNeeded lay - page)"
proof (induction clean allBands lay page prevCutY arbitrary: slices rule: pages_loop.induct)
  case (1 clean allBands lay page prevCutY)
  show ?case
  proof (cases "page < pagesNeeded lay")
    case True
    from pages_loop_Inr[OF "1.prems" True]
    obtain sl p' rest where r: "renderPage allBands lay page prevCutY = (sl, p')"
      and n: "pages_loop clean allBands lay (page + 1) p' = Inr rest"
      and s: "slices = sl # rest" and c: "clean"
      by blast
    have ok: "addSliceToPdf clean sl = None" using c by (simp add: addSliceToPdf_def)
    show ?thesis
      using True "1.IH"[OF True r[symmetric] ok n] s by simp
  next
    case False
    then show ?thesis using "1.prems" by (simp add: pages_loop_stop)
  qed
qed

lemma pages_loop_slices:
  "pages_loop clean allBands lay page prevCutY = Inr slices \<Longrightarrow> s \<in> set slices \<Longrightarrow>
     1 \<le> srcH s"
proof (induction clean allBands lay page prevCutY arbitrary: slices rule: pages_loop.induct)
  case (1 clean allBands lay page prevCutY)
  show ?case
  proof (cases "page < pagesNeeded lay")
    case True
    from pages_loop_Inr[OF "1.prems"(1) True]
    obtain sl p' rest where r: "renderPage allBands lay page prevCutY = (sl, p')"
      and n: "pages_loop clean allBands lay (page + 1) p' = Inr rest"
      and sl: "slices = sl # rest" and c: "clean"
      by blast
    have ok: "addSliceToPdf clean sl = None" using c by (simp add: addSliceToPdf_def)
    from "1.prems"(2) sl have "s = sl \<or> s \<in> set rest" by simp
    then show ?thesis
    proof
      assume "s = sl"
      then show ?thesis using renderPage_srcH[OF r] by blast
    next
      assume "s \<in> set rest"
      then show ?thesis using "1.IH"[OF True r[symmetric] ok n] by blast
    qed
  next
    case False
    then show ?thesis using "1.prems" by (simp add: pages_loop_stop)
  qed
qed


lemma footerLineCount_cases:
  "footerLineCount env = 0 \<or> footerLineCount env = 1 \<or> footerLineCount env = 2"
  by (auto simp: footerLineCount_def split: option.splits)

lemma contentW_pos: "0 < contentW pageSize"
  by (simp add: contentW_def pageDims_def margin_def)

lemma imageContentH_eq:
  "imageContentH (pdf_layout w h pageSize windowDpr env)
     = contentH pageSize - footerReservedMm env"
  by (simp add: pdf_layout_def Let_def)

lemma imageContentH_ge: "contentW pageSize \<le> imageContentH (pdf_layout w h pageSize windowDpr env)"
  using footerLineCount_cases[of env]
  by (auto simp: imageContentH_eq contentW_def contentH_def pageDims_def footerReservedMm_def
      margin_def FOOTER_PADDING_MM_def FOOTER_LINE_HEIGHT_MM_def)

lemma imageContentH_pos: "0 < imageContentH (pdf_layout w h pageSize windowDpr env)"
  using imageContentH_ge[of pageSize w h windowDpr env] contentW_pos[of pageSize] by linarith

lemma pxToMm_pos: "0 < pxToMm windowDpr"
proof -
  have "(0::rat) < of_int (max 1 (Math_round (or_else windowDpr 1)))" by simp
  then show ?thesis by (simp add: pxToMm_def Let_def)
qed

lemma pdf_scale_pos:
  assumes "0 < w"
  shows "0 < pdf_scale (pdf_layout w h pageSize windowDpr env)"
  using assms pxToMm_pos[of windowDpr] contentW_pos[of pageSize]
  by (simp add: pdf_layout_def Let_def zero_less_divide_iff)

lemma imgHeightMm_nonneg: "0 \<le> imgHeightMm (pdf_layout w h pageSize windowDpr env)"
  using pxToMm_pos[of windowDpr] by (simp add: pdf_layout_def Let_def)

lemma pagesNeeded_def': 
  "pagesNeeded (pdf_layout w h pageSize windowDpr env)
     = Math_ceil (imgHeightMm (pdf_layout w h pageSize windowDpr env)
                    * pdf_scale (pdf_layout w h pageSize windowDpr env)
                    / imageContentH (pdf_layout w h pageSize windowDpr env))"
  by (simp add: pdf_layout_def Let_def)

lemma pagesNeeded_nonneg:
  assumes "0 < w"
  shows "0 \<le> pagesNeeded (pdf_layout w h pageSize windowDpr env)"
proof -
  let ?lay = "pdf_layout w h pageSize windowDpr env"
  have "0 \<le> imgHeightMm ?lay * pdf_scale ?lay / imageContentH ?lay"
    using imgHeightMm_nonneg[of w h pageSize windowDpr env]
      pdf_scale_pos[OF assms, of h pageSize windowDpr env]
      imageContentH_pos[of w h pageSize windowDpr env]
    by simp
  then show ?thesis
    unfolding pagesNeeded_def' Math_ceil_def by (simp add: ceiling_le_iff le_ceiling_iff)
qed


text \<open>
  C10. For every raster of positive width that is origin-clean (the rasters the viewer
  builds are drawn from the decoded capture images) and every page size,
  \<open>appendCanvasToPagedPdf\<close> returns, and emits exactly
  \<open>pagesNeeded = ceil(scaledHeight / imageContentH)\<close> slices
  (\<open>scaledHeight = imgHeightMm \<times> scale\<close>), each with \<open>srcH \<ge> 1\<close>.
\<close>

theorem paginator_page_count:
  assumes "0 < canvas_width cv" and "origin_clean cv"
  shows "\<exists>slices. appendCanvasToPagedPdf cv pageSize windowDpr env = Inr slices
           \<and> int (length slices)
               = pagesNeeded (pdf_layout (canvas_width cv) (canvas_height cv) pageSize windowDpr env)
           \<and> pagesNeeded (pdf_layout (canvas_width cv) (canvas_height cv) pageSize windowDpr env)
               = Math_ceil (imgHeightMm (pdf_layout (canvas_width cv) (canvas_height cv) pageSize windowDpr env)
                    * pdf_scale (pdf_layout (canvas_width cv) (canvas_height cv) pageSize windowDpr env)
                    / imageContentH (pdf_layout (canvas_width cv) (canvas_height cv) pageSize windowDpr env))
           \<and> (\<forall>s\<in>set slices. 1 \<le> srcH s)"
proof -
  let ?lay = "pdf_layout (canvas_width cv) (canvas_height cv) pageSize windowDpr env"
  obtain slices where loop: "pages_loop (origin_clean cv) (detectBands cv) ?lay 0 0 = Inr slices"
    using pages_loop_returns[OF assms(2), of "detectBands cv" ?lay 0 0] by blast
  have run: "appendCanvasToPagedPdf cv pageSize windowDpr env = Inr slices"
    using assms(1) loop by (simp add: appendCanvasToPagedPdf_def paginate_def)
  have len: "int (length slices) = pagesNeeded ?lay"
    using length_pages_loop[OF loop]
      pagesNeeded_nonneg[OF assms(1), of "canvas_height cv" pageSize windowDpr env]
    by simp
  have pos: "\<forall>s\<in>set slices. 1 \<le> srcH s"
    using pages_loop_slices[OF loop] by blast
  show ?thesis
    using run len pos pagesNeeded_def'[of "canvas_width cv" "canvas_height cv" pageSize windowDpr env]
    by blast
qed

text \<open>A white 2 \<times> 3 raster on A4 takes two pages.\<close>

theorem paginator_page_count_witness:
  "0 < canvas_width white_canvas \<and> origin_clean white_canvas
   \<and> (\<exists>slices. appendCanvasToPagedPdf white_canvas ''a4'' 1 None = Inr slices
          \<and> int (length slices) = 2)"
  using paginator_page_count[of white_canvas "''a4''" 1 None] lay_2_3
  by (simp add: white_canvas_def origin_clean_def a4_layout_def) blast





lemma three_pages:
  assumes "pagesNeeded lay = 3"
    and "renderPage allBands lay 0 0 = (s0, p1)"
    and "renderPage allBands lay 1 p1 = (s1, p2)"
    and "renderPage allBands lay 2 p2 = (s2, p3)"
  shows "pages_loop True allBands lay 0 0 = Inr [s0, s1, s2]"
proof -
  have "pages_loop True allBands lay (2 + 1) p3 = Inr []"
    using assms(1) by (intro pages_loop_stop) simp
  then have "pages_loop True allBands lay (1 + 1) p2 = Inr [s2]"
    using assms(1,4) pages_loop_step[of 2 lay allBands p2 s2 p3 "[]"] by simp
  then have "pages_loop True allBands lay (0 + 1) p1 = Inr [s1, s2]"
    using assms(1,3) pages_loop_step[of 1 lay allBands p1 s1 p2 "[s2]"] by simp
  then show ?thesis
    using assms(1,2) pages_loop_step[of 0 lay allBands 0 s0 p1 "[s1, s2]"] by simp
qed




text \<open>
  C6 fails on the code. For a 343 \<times> 3000 raster on A4 (nominal end of page 1 at row 500,
  \<open>contentHPx\<close> about 500.06) whose only band is at rows 1200 to 1210, the band's centre
  is 705 rows past the nominal end, more than \<open>contentHPx \<times> 0.5\<close>; Pass 1 records it as
  \<open>bestBandForPage\<close> before the 50% test leaves the loop. Page 1 then shows rows 0 to 499
  and \<open>prevCutY\<close> becomes 1211, so rows 500 to 1199 appear on no page.
\<close>

theorem pass1_selects_band_beyond_half_page:
  "nominalEndY (a4_layout 343 3000) 0 = 500
   \<and> contentHPx (a4_layout 343 3000) * (1 / 2) < band_centre (mk_band 1200 1210) - 500
   \<and> pass1 (contentHPx (a4_layout 343 3000)) 0 500 [mk_band 1200 1210] None None
       = Some (mk_band 1200 1210)
   \<and> renderPage (Some [mk_band 1200 1210]) (a4_layout 343 3000) 0 0
       = (\<lparr> srcY = 0, srcH = 500, usedOverlap = False,
             consumedBand = Some (mk_band 1200 1210), refinedEndY = 1200 \<rparr>, 1211)"
  by (simp add: lay_343_3000 page_eval)

text \<open>
  C9. If the slice height after step 2, \<open>refinedEndY - srcY\<close>, is below 5% of
  \<open>contentHPx\<close>, the page is the raw advancement from \<open>prevCutY\<close>: it starts at \<open>prevCutY\<close>,
  is cut at \<open>min(prevCutY + round(contentHPx), canvas.height)\<close>, uses no overlap and
  consumes no band, and the next \<open>prevCutY\<close> is that cut.
\<close>

theorem safety_floor_forces_raw_advance:
  assumes "findCut allBands lay page prevCutY = (refinedEndY0, useOverlap0, band0)"
    and "of_int (refinedEndY0 - sliceStart useOverlap0 prevCutY) < contentHPx lay * (5 / 100)"
  shows "renderPage allBands lay page prevCutY
           = (\<lparr> srcY = prevCutY,
                 srcH = max 1 (min (min (prevCutY + Math_round (contentHPx lay)) (lay_height lay)
                                      - prevCutY)
                                   (Math_round (contentHPx lay))),
                 usedOverlap = False, consumedBand = None,
                 refinedEndY = min (prevCutY + Math_round (contentHPx lay)) (lay_height lay) \<rparr>,
              min (prevCutY + Math_round (contentHPx lay)) (lay_height lay))"
  using assms by (simp add: renderPage_def Let_def)

lemma floor_example:
  "findCut (Some [mk_band 1200 1210]) (a4_layout 343 3000) 1 1211 = (1000, True, None)"
  "of_int (1000 - sliceStart True 1211) < contentHPx (a4_layout 343 3000) * (5 / 100)"
  "Math_round (contentHPx (a4_layout 343 3000)) = 500"
  "lay_height (a4_layout 343 3000) = 3000"
  by (simp_all add: lay_343_3000 page_eval)

text \<open>
  Page 2 of the 343 \<times> 3000 raster above: with \<open>prevCutY = 1211\<close> past the nominal end 1000
  the guard fires, and the page is rows 1211 to 1710.
\<close>

theorem safety_floor_forces_raw_advance_witness:
  "findCut (Some [mk_band 1200 1210]) (a4_layout 343 3000) 1 1211 = (1000, True, None)
   \<and> of_int (1000 - sliceStart True 1211) < contentHPx (a4_layout 343 3000) * (5 / 100)
   \<and> renderPage (Some [mk_band 1200 1210]) (a4_layout 343 3000) 1 1211
       = (\<lparr> srcY = 1211, srcH = 500, usedOverlap = False, consumedBand = None,
             refinedEndY = 1711 \<rparr>, 1711)"
  using safety_floor_forces_raw_advance[OF floor_example(1) floor_example(2)] floor_example
  by simp

lemma pages_band_700_710:
  "pagesNeeded (a4_layout 343 1500) = 3"
  "renderPage (Some [mk_band 700 710]) (a4_layout 343 1500) 0 0
     = (\<lparr> srcY = 0, srcH = 500, usedOverlap = False,
           consumedBand = Some (mk_band 700 710), refinedEndY = 700 \<rparr>, 711)"
  "renderPage (Some [mk_band 700 710]) (a4_layout 343 1500) 1 711
     = (\<lparr> srcY = 651, srcH = 349, usedOverlap = True,
           consumedBand = None, refinedEndY = 1000 \<rparr>, 1000)"
  "renderPage (Some [mk_band 700 710]) (a4_layout 343 1500) 2 1000
     = (\<lparr> srcY = 1000, srcH = 500, usedOverlap = False,
           consumedBand = None, refinedEndY = 1500 \<rparr>, 1500)"
  by (simp_all add: lay_343_1500 page_eval)

lemma paginate_band_700_710:
  "paginate (Some [mk_band 700 710]) 343 1500 True ''a4'' 1 None
     = Inr [\<lparr> srcY = 0, srcH = 500, usedOverlap = False,
                consumedBand = Some (mk_band 700 710), refinedEndY = 700 \<rparr>,
            \<lparr> srcY = 651, srcH = 349, usedOverlap = True,
                consumedBand = None, refinedEndY = 1000 \<rparr>,
            \<lparr> srcY = 1000, srcH = 500, usedOverlap = False,
                consumedBand = None, refinedEndY = 1500 \<rparr>]"
  unfolding paginate_def a4_layout_def[symmetric]
  using three_pages[OF pages_band_700_710] by simp

lemma band_700_710_within_cap:
  "nominalEndY (a4_layout 343 1500) 0 = 500"
  "band_centre (mk_band 700 710) - 500 \<le> contentHPx (a4_layout 343 1500) * (1 / 2)"
  "band_start (mk_band 700 710) = 700"
  by (simp_all add: lay_343_1500 page_eval)

lemma wide_page:
  "renderPage (Some []) (a4_layout 1000 3000) 0 0
     = (\<lparr> srcY = 0, srcH = 1458, usedOverlap = True, consumedBand = None,
           refinedEndY = 1458 \<rparr>, 1458)"
  "contentHPx (a4_layout 1000 3000) < 1458"
  "imageContentH (a4_layout 1000 3000)
     < (1458 / of_int (lay_height (a4_layout 1000 3000)))
         * imgHeightMm (a4_layout 1000 3000) * pdf_scale (a4_layout 1000 3000)"
  by (simp_all add: lay_1000_3000 page_eval)

lemma backing_pages:
  "renderPage (Some [mk_band 500 510, mk_band 540 560]) (a4_layout 343 3000) 0 0
     = (\<lparr> srcY = 0, srcH = 500, usedOverlap = False,
           consumedBand = Some (mk_band 500 510), refinedEndY = 500 \<rparr>, 511)"
  "renderPage (Some [mk_band 500 510, mk_band 540 560]) (a4_layout 343 3000) 1 511
     = (\<lparr> srcY = 511, srcH = 29, usedOverlap = False,
           consumedBand = Some (mk_band 540 560), refinedEndY = 540 \<rparr>, 561)"
  "renderPage (Some [mk_band 500 510, mk_band 540 560]) (a4_layout 343 3000) 2 561
     = (\<lparr> srcY = 501, srcH = 500, usedOverlap = True,
           consumedBand = None, refinedEndY = 1500 \<rparr>, 1500)"
  by (simp_all add: lay_343_3000 page_eval)

text \<open>
  C7 fails on the code, in each of its three parts.
  \<^item> Coverage. A 343 \<times> 1500 raster on A4 (\<open>contentHPx\<close> about 500.06, nominal page ends
    at rows 500, 1000 and 1500) whose only band is at rows 700 to 710, within the 50% cap
    of Pass 1: page 1 is cut at the band's start, row 700, but step 3 clamps its height
    to 500 rows, and step 6 still moves \<open>prevCutY\<close> past the band to 711. The three pages
    show rows 0 to 499, 651 to 999 and 1000 to 1499: rows 500 to 650, all above the band,
    are on no page, and that gap of 151 rows exceeds \<open>OVERLAP_PX\<close>.
  \<^item> Height. On a 1000 \<times> 3000 raster without bands (\<open>contentHPx = 27700/19\<close>, about
    1457.89) the first slice has \<open>srcH = round(contentHPx) = 1458 > contentHPx\<close>, and its
    \<open>drawHeightMm\<close> exceeds \<open>imageContentH\<close>.
  \<^item> Order. On a 343 \<times> 3000 raster with bands at rows 500 to 510 and 540 to 560 the
    second page starts at row 511 and the third, backing up by \<open>OVERLAP_PX\<close> from
    \<open>prevCutY = 561\<close>, at row 501.
\<close>

theorem paginator_drops_rows_after_clamp:
  "nominalEndY (a4_layout 343 1500) 0 = 500
   \<and> band_centre (mk_band 700 710) - 500 \<le> contentHPx (a4_layout 343 1500) * (1 / 2)
   \<and> paginate (Some [mk_band 700 710]) 343 1500 True ''a4'' 1 None
       = Inr [\<lparr> srcY = 0, srcH = 500, usedOverlap = False,
                  consumedBand = Some (mk_band 700 710), refinedEndY = 700 \<rparr>,
              \<lparr> srcY = 651, srcH = 349, usedOverlap = True,
                  consumedBand = None, refinedEndY = 1000 \<rparr>,
              \<lparr> srcY = 1000, srcH = 500, usedOverlap = False,
                  consumedBand = None, refinedEndY = 1500 \<rparr>]
   \<and> OVERLAP_PX < 651 - (0 + 500)
   \<and> (650::int) < band_start (mk_band 700 710)
   \<and> renderPage (Some []) (a4_layout 1000 3000) 0 0
       = (\<lparr> srcY = 0, srcH = 1458, usedOverlap = True, consumedBand = None,
             refinedEndY = 1458 \<rparr>, 1458)
   \<and> contentHPx (a4_layout 1000 3000) < 1458
   \<and> imageContentH (a4_layout 1000 3000)
       < (1458 / of_int (lay_height (a4_layout 1000 3000)))
           * imgHeightMm (a4_layout 1000 3000) * pdf_scale (a4_layout 1000 3000)
   \<and> renderPage (Some [mk_band 500 510, mk_band 540 560]) (a4_layout 343 3000) 0 0
       = (\<lparr> srcY = 0, srcH = 500, usedOverlap = False,
             consumedBand = Some (mk_band 500 510), refinedEndY = 500 \<rparr>, 511)
   \<and> renderPage (Some [mk_band 500 510, mk_band 540 560]) (a4_layout 343 3000) 1 511
       = (\<lparr> srcY = 511, srcH = 29, usedOverlap = False,
             consumedBand = Some (mk_band 540 560), refinedEndY = 540 \<rparr>, 561)
   \<and> renderPage (Some [mk_band 500 510, mk_band 540 560]) (a4_layout 343 3000) 2 561
       = (\<lparr> srcY = 501, srcH = 500, usedOverlap = True,
             consumedBand = None, refinedEndY = 1500 \<rparr>, 1500)
   \<and> (501::int) < 511"
  using paginate_band_700_710 band_700_710_within_cap wide_page backing_pages
  by (simp add: OVERLAP_PX_def)

text \<open>
  Pagination without bands. With \<open>c = contentHPx \<ge> 1\<close> the nominal end of an interior page
  \<open>k\<close> is \<open>round((k + 1) c)\<close>, at least \<open>floor(c)\<close> rows below the previous one, so the
  safety guard does not fire there; on the last page the nominal end is the raster's
  height, and so is the guard's raw advancement.
\<close>

lemma nominal_arith_interior:
  fixes c :: rat and H k :: int
  assumes c1: "1 \<le> c" and k0: "0 \<le> k" and lt: "(of_int k + 1) * c < of_int H"
  shows "min (Math_round (min ((of_int k + 1) * c) (of_int H))) H = Math_round ((of_int k + 1) * c)"
    and "\<not> of_int (Math_round ((of_int k + 1) * c) - Math_round (of_int k * c)) < c * (5 / 100)"
proof -
  have m: "min ((of_int k + 1) * c) (of_int H) = (of_int k + 1) * c" using lt by simp
  have "of_int (Math_round ((of_int k + 1) * c)) \<le> (of_int k + 1) * c + 1 / 2"
    by (rule Math_round_bounds)
  then have "(of_int (Math_round ((of_int k + 1) * c)) :: rat) < of_int H + 1" using lt by linarith
  then have "Math_round ((of_int k + 1) * c) < H + 1"
    by (metis of_int_less_iff of_int_add of_int_1)
  then show "min (Math_round (min ((of_int k + 1) * c) (of_int H))) H = Math_round ((of_int k + 1) * c)"
    using m by simp
  have fl: "\<lfloor>of_int k * c + 1 / 2\<rfloor> + \<lfloor>c\<rfloor> \<le> \<lfloor>(of_int k * c + 1 / 2) + c\<rfloor>"
    by (rule le_floor_add)
  have e: "(of_int k + 1) * c + 1 / 2 = (of_int k * c + 1 / 2) + c" by (simp add: algebra_simps)
  have d: "\<lfloor>c\<rfloor> \<le> Math_round ((of_int k + 1) * c) - Math_round (of_int k * c)"
    unfolding Math_round_def e using fl by linarith
  have f1: "1 \<le> \<lfloor>c\<rfloor>" using c1 by (simp add: le_floor_iff)
  have f2: "c - 1 < of_int \<lfloor>c\<rfloor>" by linarith
  have "(of_int \<lfloor>c\<rfloor> :: rat) \<le> of_int (Math_round ((of_int k + 1) * c) - Math_round (of_int k * c))"
    using d by (simp only: of_int_le_iff)
  moreover have "(1::rat) \<le> of_int \<lfloor>c\<rfloor>" using f1 by (metis of_int_le_iff of_int_1)
  ultimately show "\<not> of_int (Math_round ((of_int k + 1) * c) - Math_round (of_int k * c)) < c * (5 / 100)"
    using f2 by linarith
qed

lemma nominal_arith_last:
  fixes c :: rat and H k :: int
  assumes ge: "of_int H \<le> (of_int k + 1) * c"
  shows "min (Math_round (min ((of_int k + 1) * c) (of_int H))) H = H"
    and "min (Math_round (of_int k * c) + Math_round c) H = H"
proof -
  have m: "min ((of_int k + 1) * c) (of_int H) = of_int H" using ge by simp
  show "min (Math_round (min ((of_int k + 1) * c) (of_int H))) H = H"
    unfolding m by (simp add: Math_round_of_int)
  have a: "of_int k * c - 1 / 2 < of_int (Math_round (of_int k * c))"
    and b: "c - 1 / 2 < of_int (Math_round c)"
    by (rule Math_round_bounds)+
  have "(of_int H :: rat) - 1 < of_int (Math_round (of_int k * c)) + of_int (Math_round c)"
    using a b ge by (simp add: algebra_simps)
  then have "(of_int (H - 1) :: rat) < of_int (Math_round (of_int k * c) + Math_round c)"
    by simp
  then have "H - 1 < Math_round (of_int k * c) + Math_round c"
    by (simp only: of_int_less_iff)
  then show "min (Math_round (of_int k * c) + Math_round c) H = H" by simp
qed


lemma layout_product:
  assumes "0 < w"
  shows "pdf_scale (pdf_layout w h pageSize windowDpr env)
           * imgHeightMm (pdf_layout w h pageSize windowDpr env) * of_nat w
         = contentW pageSize * of_nat h"
proof -
  have "pxToMm windowDpr \<noteq> 0" "(of_nat w :: rat) \<noteq> 0"
    using pxToMm_pos[of windowDpr] assms by simp_all
  then show ?thesis by (simp add: pdf_layout_def Let_def)
qed

lemma contentHPx_eq:
  "contentHPx (pdf_layout w h pageSize windowDpr env)
     = imageContentH (pdf_layout w h pageSize windowDpr env)
         / pdf_scale (pdf_layout w h pageSize windowDpr env)
         / imgHeightMm (pdf_layout w h pageSize windowDpr env) * of_nat h"
  by (simp add: pdf_layout_def Let_def)

lemma imgHeightMm_pos:
  assumes "0 < h"
  shows "0 < imgHeightMm (pdf_layout w h pageSize windowDpr env)"
  using assms pxToMm_pos[of windowDpr] by (simp add: pdf_layout_def Let_def)

lemma layout_closed:
  fixes w h :: nat and pageSize :: string and windowDpr :: rat and env :: "footer_source option"
  defines "lay \<equiv> pdf_layout w h pageSize windowDpr env"
  assumes w: "0 < w" and h: "0 < h"
  shows "1 \<le> contentHPx lay"
    and "pagesNeeded lay = \<lceil>of_nat h / contentHPx lay\<rceil>"
    and "\<And>k. nominalEndY lay k
           = min (Math_round (min ((of_int k + 1) * contentHPx lay) (of_int (int h)))) (int h)"
proof -
  define I where "I = imageContentH lay"
  define S where "S = pdf_scale lay"
  define M where "M = imgHeightMm lay"
  define W where "W = (of_nat w :: rat)"
  define Hh where "Hh = (of_nat h :: rat)"
  define cw where "cw = contentW pageSize"
  have pos: "0 < I" "0 < S" "0 < M" "0 < W" "0 < Hh" "0 < cw"
    using imageContentH_pos[of w h pageSize windowDpr env] pdf_scale_pos[OF w, of h pageSize windowDpr env]
      imgHeightMm_pos[OF h, of w pageSize windowDpr env] w h contentW_pos[of pageSize]
    by (simp_all add: I_def S_def M_def W_def Hh_def cw_def lay_def)
  have ge: "cw \<le> I"
    using imageContentH_ge[of pageSize w h windowDpr env] by (simp add: I_def cw_def lay_def)
  have prod: "S * M * W = cw * Hh"
    using layout_product[OF w, of h pageSize windowDpr env]
    by (simp add: S_def M_def W_def Hh_def cw_def lay_def)
  have c: "contentHPx lay = I / S / M * Hh"
    using contentHPx_eq[of w h pageSize windowDpr env] by (simp add: I_def S_def M_def Hh_def lay_def)
  have SM: "S * M = cw * Hh / W" using prod pos by (simp add: field_simps)
  have c2: "contentHPx lay = I * W / cw"
  proof -
    have "I / S / M * Hh = I * Hh / (S * M)" by simp
    also have "\<dots> = I * Hh / (cw * Hh / W)" by (simp only: SM)
    also have "\<dots> = I * W / cw" using pos by simp
    finally show ?thesis using c by simp
  qed
  have "1 \<le> W" using w by (simp add: W_def)
  moreover have "W \<le> I * W / cw"
  proof -
    have "cw * W \<le> I * W" using ge pos by simp
    then show ?thesis using pos by (simp add: pos_le_divide_eq mult.commute)
  qed
  ultimately show "1 \<le> contentHPx lay" unfolding c2 by linarith
  have "M * S / I = Hh / (I / S / M * Hh)" using pos by (simp add: field_simps)
  then have "imgHeightMm lay * pdf_scale lay / imageContentH lay = of_nat h / contentHPx lay"
    by (simp only: c I_def S_def M_def Hh_def)
  then show "pagesNeeded lay = \<lceil>of_nat h / contentHPx lay\<rceil>"
    using pagesNeeded_def'[of w h pageSize windowDpr env, folded lay_def]
    by (simp add: Math_ceil_def)
  fix k :: int
  have hh: "lay_height lay = int h" by (simp add: lay_def pdf_layout_def Let_def)
  define q where "q = (of_int k + 1) * I / S"
  have x: "(of_int k + 1) * (I / S / M * Hh) = q / M * Hh" by (simp add: q_def)
  have "min q M / M * Hh = min (q / M * Hh) Hh"
  proof (cases "q \<le> M")
    case True
    then have "q / M \<le> 1" using pos by (simp add: pos_divide_le_eq)
    then have "q / M * Hh \<le> 1 * Hh" using pos by (intro mult_right_mono) simp_all
    then show ?thesis using True by (simp add: min_def)
  next
    case False
    then have "1 < q / M" using pos by (simp add: pos_less_divide_eq)
    then have "1 * Hh < q / M * Hh" using pos by (intro mult_strict_right_mono) simp_all
    then show ?thesis using False pos by (simp add: min_def)
  qed
  then have "min ((of_int k + 1) * I / S) M / M * Hh = min ((of_int k + 1) * (I / S / M * Hh)) Hh"
    by (simp only: x q_def)
  then have "min ((of_int k + 1) * imageContentH lay / pdf_scale lay) (imgHeightMm lay)
               / imgHeightMm lay * of_int (int h)
             = min ((of_int k + 1) * contentHPx lay) (of_int (int h))"
    by (simp only: c I_def S_def M_def Hh_def of_int_of_nat_eq)
  then show "nominalEndY lay k
           = min (Math_round (min ((of_int k + 1) * contentHPx lay) (of_int (int h)))) (int h)"
    by (simp only: nominalEndY_def Let_def hh)
qed

lemma findCut_unreadable:
  "findCut None lay page prevCutY = (nominalEndY lay page, False, None)"
  by (simp add: findCut_def Let_def)

lemma unreadable_page:
  fixes w h :: nat and pageSize :: string and windowDpr :: rat and env :: "footer_source option"
  defines "lay \<equiv> pdf_layout w h pageSize windowDpr env"
  assumes w: "0 < w" and h: "0 < h" and k: "0 \<le> k" "k < pagesNeeded lay"
  shows "renderPage None lay k (Math_round (of_int k * contentHPx lay))
           = (\<lparr> srcY = Math_round (of_int k * contentHPx lay),
                 srcH = max 1 (min (nominalEndY lay k - Math_round (of_int k * contentHPx lay))
                                   (Math_round (contentHPx lay))),
                 usedOverlap = False, consumedBand = None,
                 refinedEndY = nominalEndY lay k \<rparr>,
              nominalEndY lay k)
         \<and> (k + 1 < pagesNeeded lay \<longrightarrow>
               nominalEndY lay k = Math_round (of_int (k + 1) * contentHPx lay))"
proof -
  define c where "c = contentHPx lay"
  define H where "H = int h"
  have c1: "1 \<le> c"
    and n: "pagesNeeded lay = \<lceil>of_int H / c\<rceil>"
    and nom: "\<And>j. nominalEndY lay j = min (Math_round (min ((of_int j + 1) * c) (of_int H))) H"
    using layout_closed[OF w h, of pageSize windowDpr env]
    by (simp_all add: c_def H_def lay_def)
  have lh: "lay_height lay = H" by (simp add: lay_def pdf_layout_def Let_def H_def)
  have c0: "0 < c" using c1 by linarith
  have up: "of_int H \<le> of_int (pagesNeeded lay) * c"
  proof -
    have "of_int H / c \<le> of_int (pagesNeeded lay)" unfolding n by (rule le_of_int_ceiling)
    then show ?thesis using c0 by (simp add: pos_divide_le_eq)
  qed
  have lo: "(of_int (pagesNeeded lay) - 1) * c < of_int H"
  proof -
    have "of_int (pagesNeeded lay) - 1 < of_int H / c"
      unfolding n using ceiling_correct[of "of_int H / c"] by simp
    then show ?thesis using c0 by (simp add: pos_less_divide_eq)
  qed
  let ?P = "Math_round (of_int k * c)"
  show ?thesis
  proof (cases "k + 1 < pagesNeeded lay")
    case True
    then have "k + 1 \<le> pagesNeeded lay - 1" by simp
    then have "(of_int (k + 1) :: rat) \<le> of_int (pagesNeeded lay - 1)"
      by (simp only: of_int_le_iff)
    then have "of_int k + 1 \<le> (of_int (pagesNeeded lay) - 1 :: rat)" by simp
    then have "(of_int k + 1) * c \<le> (of_int (pagesNeeded lay) - 1) * c"
      using c0 by (simp only: mult_le_cancel_right) simp
    then have lt: "(of_int k + 1) * c < of_int H" using lo by linarith
    have N: "nominalEndY lay k = Math_round ((of_int k + 1) * c)"
      unfolding nom using nominal_arith_interior(1)[OF c1 k(1) lt] .
    have nf: "\<not> of_int (nominalEndY lay k - ?P) < c * (5 / 100)"
      unfolding N using nominal_arith_interior(2)[OF c1 k(1) lt] .
    have "renderPage None lay k ?P
           = (\<lparr> srcY = ?P, srcH = max 1 (min (nominalEndY lay k - ?P) (Math_round c)),
                 usedOverlap = False, consumedBand = None,
                 refinedEndY = nominalEndY lay k \<rparr>, nominalEndY lay k)"
      using nf
      by (simp add: renderPage_def findCut_unreadable sliceStart_def Let_def c_def[symmetric])
    then show ?thesis using True N by (simp add: c_def)
  next
    case False
    then have "pagesNeeded lay = k + 1" using k(2) by simp
    then have ge: "of_int H \<le> (of_int k + 1) * c" using up by simp
    have N: "nominalEndY lay k = H"
      unfolding nom using nominal_arith_last(1)[OF ge] .
    have adv: "min (?P + Math_round c) H = H"
      using nominal_arith_last(2)[OF ge] .
    have "renderPage None lay k ?P
           = (\<lparr> srcY = ?P, srcH = max 1 (min (nominalEndY lay k - ?P) (Math_round c)),
                 usedOverlap = False, consumedBand = None,
                 refinedEndY = nominalEndY lay k \<rparr>, nominalEndY lay k)"
      using N adv lh
      by (simp add: renderPage_def findCut_unreadable sliceStart_def Let_def c_def[symmetric])
    then show ?thesis using False by (simp add: c_def)
  qed
qed

lemma unreadable_loop:
  fixes w h :: nat and pageSize :: string and windowDpr :: rat and env :: "footer_source option"
  defines "lay \<equiv> pdf_layout w h pageSize windowDpr env"
  assumes w: "0 < w" and h: "0 < h"
  shows "0 \<le> k \<Longrightarrow>
         pages_loop clean None lay k (Math_round (of_int k * contentHPx lay)) = Inr slices \<Longrightarrow>
         j < length slices \<Longrightarrow>
         consumedBand (slices ! j) = None
         \<and> \<not> usedOverlap (slices ! j)
         \<and> refinedEndY (slices ! j) = nominalEndY lay (k + int j)
         \<and> srcY (slices ! j) = Math_round (of_int (k + int j) * contentHPx lay)
         \<and> k + int j < pagesNeeded lay"
proof (induction j arbitrary: k slices)
  case 0
  then have lt: "k < pagesNeeded lay"
    using pages_loop_stop[of k lay clean None] by fastforce
  have pg: "renderPage None lay k (Math_round (of_int k * contentHPx lay))
           = (\<lparr> srcY = Math_round (of_int k * contentHPx lay),
                 srcH = max 1 (min (nominalEndY lay k - Math_round (of_int k * contentHPx lay))
                                   (Math_round (contentHPx lay))),
                 usedOverlap = False, consumedBand = None,
                 refinedEndY = nominalEndY lay k \<rparr>,
              nominalEndY lay k)
         \<and> (k + 1 < pagesNeeded lay \<longrightarrow>
               nominalEndY lay k = Math_round (of_int (k + 1) * contentHPx lay))"
    using unreadable_page[where w = w and h = h and pageSize = pageSize
        and windowDpr = windowDpr and env = env and k = k] w h "0.prems"(1) lt
    by (simp add: lay_def)
  from pages_loop_Inr[OF "0.prems"(2) lt] pg
  obtain rest where "slices = fst (renderPage None lay k (Math_round (of_int k * contentHPx lay))) # rest"
    by (metis fst_conv)
  then show ?case using pg lt by simp
next
  case (Suc j)
  then have lt: "k < pagesNeeded lay"
    using pages_loop_stop[of k lay clean None] by fastforce
  have pg: "renderPage None lay k (Math_round (of_int k * contentHPx lay))
           = (\<lparr> srcY = Math_round (of_int k * contentHPx lay),
                 srcH = max 1 (min (nominalEndY lay k - Math_round (of_int k * contentHPx lay))
                                   (Math_round (contentHPx lay))),
                 usedOverlap = False, consumedBand = None,
                 refinedEndY = nominalEndY lay k \<rparr>,
              nominalEndY lay k)
         \<and> (k + 1 < pagesNeeded lay \<longrightarrow>
               nominalEndY lay k = Math_round (of_int (k + 1) * contentHPx lay))"
    using unreadable_page[where w = w and h = h and pageSize = pageSize
        and windowDpr = windowDpr and env = env and k = k] w h Suc.prems(1) lt
    by (simp add: lay_def)
  from pages_loop_Inr[OF Suc.prems(2) lt]
  obtain sl p' rest where r: "renderPage None lay k (Math_round (of_int k * contentHPx lay)) = (sl, p')"
    and n: "pages_loop clean None lay (k + 1) p' = Inr rest" and s: "slices = sl # rest"
    by blast
  have p': "p' = nominalEndY lay k" using r pg by simp
  have len: "j < length rest" using Suc.prems(3) s by simp
  then have lt1: "k + 1 < pagesNeeded lay"
    using n pages_loop_stop[of "k + 1" lay clean None p'] by fastforce
  then have nk: "nominalEndY lay k = Math_round (of_int (k + 1) * contentHPx lay)"
    using pg by simp
  have k1: "0 \<le> k + 1" using Suc.prems(1) by simp
  have ih: "consumedBand (rest ! j) = None
         \<and> \<not> usedOverlap (rest ! j)
         \<and> refinedEndY (rest ! j) = nominalEndY lay (k + 1 + int j)
         \<and> srcY (rest ! j) = Math_round (of_int (k + 1 + int j) * contentHPx lay)
         \<and> k + 1 + int j < pagesNeeded lay"
    using Suc.IH[OF k1 _ len, of ] n unfolding p' nk by blast
  have e: "k + int (Suc j) = k + 1 + int j" by simp
  show ?case unfolding s e using ih by simp
qed

lemma pagesNeeded_empty: "pagesNeeded (pdf_layout w 0 pageSize windowDpr env) = 0"
  by (simp add: pdf_layout_def Let_def Math_ceil_def)

text \<open>
  Where reading the pixels throws and the raster is origin-clean (a raster of positive
  width without a 2d context), the fallback works as the \<open>catch\<close> block intends:
  \<open>allBands\<close> is \<open>null\<close> and \<open>appendCanvasToPagedPdf\<close> returns all \<open>pagesNeeded\<close> pages; no
  page consumes a band or backs up by the overlap, every page is cut at its nominal page
  boundary \<open>nominalEndY\<close>, and starts where the previous one was cut.
\<close>

lemma unreadable_clean_raster_paginates_at_nominal_cuts:
  assumes "getImageData cv = None" and "origin_clean cv" and "0 < canvas_width cv"
  shows "detectBands cv = None
         \<and> (\<exists>slices. appendCanvasToPagedPdf cv pageSize windowDpr env = Inr slices
               \<and> int (length slices)
                   = pagesNeeded (pdf_layout (canvas_width cv) (canvas_height cv) pageSize windowDpr env)
               \<and> (\<forall>k<length slices.
                     consumedBand (slices ! k) = None \<and> \<not> usedOverlap (slices ! k)
                     \<and> refinedEndY (slices ! k)
                         = nominalEndY (pdf_layout (canvas_width cv) (canvas_height cv)
                                          pageSize windowDpr env) (int k)
                     \<and> srcY (slices ! k)
                         = (if k = 0 then 0
                            else nominalEndY (pdf_layout (canvas_width cv) (canvas_height cv)
                                                pageSize windowDpr env) (int k - 1))))"
proof -
  let ?lay = "pdf_layout (canvas_width cv) (canvas_height cv) pageSize windowDpr env"
  have bands: "detectBands cv = None" using assms(1) by (simp add: detectBands_def)
  obtain slices where loop: "pages_loop (origin_clean cv) None ?lay 0 0 = Inr slices"
    using pages_loop_returns[OF assms(2), of None ?lay 0 0] by blast
  have run: "appendCanvasToPagedPdf cv pageSize windowDpr env = Inr slices"
    using assms(3) bands loop by (simp add: appendCanvasToPagedPdf_def paginate_def)
  have len: "int (length slices) = pagesNeeded ?lay"
    using length_pages_loop[OF loop]
      pagesNeeded_nonneg[OF assms(3), of "canvas_height cv" pageSize windowDpr env]
    by simp
  have each: "consumedBand (slices ! k) = None \<and> \<not> usedOverlap (slices ! k)
                \<and> refinedEndY (slices ! k) = nominalEndY ?lay (int k)
                \<and> srcY (slices ! k) = (if k = 0 then 0 else nominalEndY ?lay (int k - 1))"
    if k: "k < length slices" for k
  proof -
    have hpos: "0 < canvas_height cv"
    proof (rule ccontr)
      assume "\<not> 0 < canvas_height cv"
      then have "pagesNeeded ?lay = 0" by (simp add: pagesNeeded_empty)
      then show False using len k by simp
    qed
    have z: "Math_round (of_int 0 * contentHPx ?lay) = 0"
      using Math_round_of_int[of 0] by simp
    have loop0: "pages_loop (origin_clean cv) None ?lay 0
                   (Math_round (of_int 0 * contentHPx ?lay)) = Inr slices"
      using loop unfolding z .
    from unreadable_loop[where w = "canvas_width cv" and h = "canvas_height cv"
        and pageSize = pageSize and windowDpr = windowDpr and env = env and k = 0 and j = k
        and clean = "origin_clean cv" and slices = slices,
        OF assms(3) hpos _ loop0 k]
    have a: "consumedBand (slices ! k) = None" "\<not> usedOverlap (slices ! k)"
      "refinedEndY (slices ! k) = nominalEndY ?lay (int k)"
      "srcY (slices ! k) = Math_round (of_int (int k) * contentHPx ?lay)"
      "int k < pagesNeeded ?lay"
      by simp_all
    have "srcY (slices ! k) = nominalEndY ?lay (int k - 1)" if "k \<noteq> 0"
    proof -
      have k0: "0 \<le> int k - 1" "int k - 1 < pagesNeeded ?lay" using that a(5) by simp_all
      from unreadable_page[where w = "canvas_width cv" and h = "canvas_height cv"
          and pageSize = pageSize and windowDpr = windowDpr and env = env and k = "int k - 1",
          OF assms(3) hpos k0] a(5)
      have "nominalEndY ?lay (int k - 1) = Math_round (of_int (int k - 1 + 1) * contentHPx ?lay)"
        by simp
      then show ?thesis using a(4) by simp
    qed
    moreover have "srcY (slices ! k) = 0" if "k = 0"
      using a(4) that z by simp
    ultimately have "srcY (slices ! k) = (if k = 0 then 0 else nominalEndY ?lay (int k - 1))"
      by (cases "k = 0") simp_all
    then show ?thesis using a(1,2,3) by blast
  qed
  show ?thesis using bands run len each by blast
qed






end
